theory Spec2Isabelle
  imports Complex_Main
begin

section \<open>Exceptions, the clock and the driver\<close>

text \<open>
  The exceptions the modelled functions raise or let through. \<open>KeyboardInterrupt\<close>
  stands for the exceptions that are not instances of Python's \<open>Exception\<close> class and
  so pass an \<open>except Exception\<close> handler; \<open>WebDriverException\<close> stands for any other
  failure of the remote driver; \<open>StepsFailed n\<close> is the plain \<open>Exception\<close>
  that \<open>repeat_steps_until_success\<close> raises, whose message names the caller's
  \<open>initial_attempts\<close>, here \<open>n\<close>.
\<close>

datatype exn =
    TimeoutException
  | StaleElementReferenceException
  | ElementClickInterceptedException
  | WebDriverException
  | WebElementNotFoundError
  | SelectionNotFoundError
  | ParameterMissingError
  | AttributeError
  | TypeError
  | IndexError
  | ValueError
  | OverflowError
  | StepsFailed int
  | KeyboardInterrupt

fun is_Exception :: "exn \<Rightarrow> bool" where
  "is_Exception KeyboardInterrupt = False"
| "is_Exception _ = True"

text \<open>
  \<open>_time_left(start, timeout)\<close> (the leading underscore of the private names is dropped
  throughout). The reading of \<open>time.time()\<close> is the explicit argument \<open>now\<close>; Python's
  floats are idealised as reals.
\<close>

definition time_left :: "real \<Rightarrow> real \<Rightarrow> real \<Rightarrow> real" where
  "time_left now start timeout = (let remaining = timeout - (now - start) in max 0 remaining)"

text \<open>\<open>WebActions._get_find_method\<close>: the locator strategy, by prefix.\<close>

definition startswith :: "string \<Rightarrow> string \<Rightarrow> bool" where
  "startswith s p = (take (length p) s = p)"

definition get_find_method :: "string \<Rightarrow> string" where
  "get_find_method element =
     (if startswith element ''//'' \<or> startswith element ''('' then ''XPATH'' else ''ID'')"

text \<open>
  The part of a \<open>WebActions\<close> instance the modelled methods read or write: the
  instance-wide escalation flag, and the wall clock (seconds) that waiting advances.
\<close>

record web_actions =
  raise_exception :: bool
  clock :: real

text \<open>
  A resolved element handle; only its \<open>text\<close> property is read here. Every read asks
  the driver again: \<open>text_reads e j\<close> is what the \<open>j\<close>-th read of the handle
  \<open>e\<close> gives (counted from 0), a text or an exception of the driver. A \<open>steady\<close>
  handle shows one text at every read.
\<close>

datatype web_element = WebElement (text_reads: "nat \<Rightarrow> exn + string")

definition steady :: "string \<Rightarrow> web_element" where
  "steady t = WebElement (\<lambda>j. Inr t)"

text \<open>
  What one \<open>WebDriverWait(driver, remaining, poll_frequency=0.25).until(cond)\<close> meets:
  the condition holds at the first poll (\<open>Located\<close>), it never holds within the budget
  (\<open>NotLocated\<close>: the wait blocks for the whole budget and raises
  \<open>TimeoutException\<close>), or the driver raises at once (\<open>Fault\<close>).
\<close>

datatype wait_outcome = Located web_element | NotLocated | Fault exn

fun until :: "web_actions \<Rightarrow> real \<Rightarrow> wait_outcome \<Rightarrow> (exn + web_element) \<times> web_actions" where
  "until s remaining (Located e) = (Inr e, s)"
| "until s remaining NotLocated = (Inl TimeoutException, s\<lparr>clock := clock s + remaining\<rparr>)"
| "until s remaining (Fault x) = (Inl x, s)"

text \<open>
  \<open>time.sleep(d)\<close> refuses a negative duration with \<open>ValueError\<close> and a duration
  beyond what it can hold with \<open>OverflowError\<close>. The interpreter keeps the duration as
  a signed 64-bit count of nanoseconds, which gives the bound \<open>max_sleep\<close> (about
  9.2e9 seconds), rounding aside.
\<close>

definition max_sleep :: real where
  "max_sleep = (2 ^ 63 - 1) / 10 ^ 9"

definition sleep_refused :: "real \<Rightarrow> exn option" where
  "sleep_refused d =
     (if d < 0 then Some ValueError else if max_sleep < d then Some OverflowError else None)"

definition sleep :: "real \<Rightarrow> web_actions \<Rightarrow> exn + web_actions" where
  "sleep d s =
     (case sleep_refused d of Some x \<Rightarrow> Inl x | None \<Rightarrow> Inr (s\<lparr>clock := clock s + d\<rparr>))"

section \<open>Element resolution\<close>

text \<open>
  \<open>WebActions._get_element_if_exist\<close>. No time passes between taking \<open>start\<close> and
  the first call of \<open>_time_left\<close>. The handler \<open>except Exception\<close> turns every
  exception of the try block (the \<open>TimeoutException\<close> of an empty budget included) into
  \<open>WebElementNotFoundError\<close> when the instance escalates and into \<open>None\<close> otherwise.
\<close>

definition get_element_if_exist ::
  "web_actions \<Rightarrow> real \<Rightarrow> wait_outcome \<Rightarrow> (exn + web_element option) \<times> web_actions" where
  "get_element_if_exist s max_wait_time w =
     (let start = clock s;
          remaining = time_left (clock s) start max_wait_time;
          (r, s1) = (if remaining = 0 then (Inl TimeoutException, s) else until s remaining w)
      in case r of
           Inr e \<Rightarrow> (Inr (Some e), s1)
         | Inl x \<Rightarrow>
             if is_Exception x
             then (if raise_exception s1 then (Inl WebElementNotFoundError, s1) else (Inr None, s1))
             else (Inl x, s1))"

text \<open>
  \<open>WebActions.check_element_exist\<close>: the flag is saved, cleared for the helper and
  restored in the \<open>finally\<close> block, which also runs when the helper raises; the
  caller's own \<open>raise_exception\<close> argument (here \<open>raise_arg\<close>) decides afterwards.
\<close>

definition check_element_exist ::
  "web_actions \<Rightarrow> real \<Rightarrow> bool \<Rightarrow> wait_outcome \<Rightarrow> (exn + web_element option) \<times> web_actions" where
  "check_element_exist s max_wait_time raise_arg w =
     (let original_flag = raise_exception s;
          s1 = s\<lparr>raise_exception := False\<rparr>;
          (r, s2) = get_element_if_exist s1 max_wait_time w;
          s3 = s2\<lparr>raise_exception := original_flag\<rparr>
      in case r of
           Inl x \<Rightarrow> (Inl x, s3)
         | Inr (Some elem) \<Rightarrow> (Inr (Some elem), s3)
         | Inr None \<Rightarrow>
             if raise_arg then (Inl WebElementNotFoundError, s3) else (Inr None, s3))"

section \<open>The validation loop\<close>

record Data =
  data :: "string option"
  status :: bool

text \<open>\<open>stop_texts and observed in stop_texts\<close>: \<open>None\<close> and the empty list are falsy.\<close>

fun in_stop_texts :: "string list option \<Rightarrow> string \<Rightarrow> bool" where
  "in_stop_texts None t = False"
| "in_stop_texts (Some l) t = (l \<noteq> [] \<and> t \<in> set l)"

text \<open>
  \<open>WebActions.validate_text\<close>. \<open>drv i\<close> is what the driver's wait meets on the
  resolution of attempt \<open>i\<close> (counted from 0). Dereferencing the \<open>None\<close> that a
  suppressed resolution returns raises \<open>AttributeError\<close>. One attempt reads the text of
  its handle up to four times: for the log line, for \<open>data\<close>, for the stop test (only
  when \<open>stop_texts\<close> is truthy) and for the log line of the stop branch; an exception
  of a read leaves the method.
\<close>

function validate_loop ::
  "(nat \<Rightarrow> wait_outcome) \<Rightarrow> string \<Rightarrow> string list option \<Rightarrow> real \<Rightarrow> int \<Rightarrow> real \<Rightarrow>
   nat \<Rightarrow> string option \<Rightarrow> web_actions \<Rightarrow> (exn + Data) \<times> web_actions" where
  "validate_loop drv txt stop_texts max_wait_time no_of_attempts validation_wait_time attempts d s =
     (if int attempts < no_of_attempts then
        (case get_element_if_exist s max_wait_time (drv attempts) of
           (Inl x, s1) \<Rightarrow> (Inl x, s1)
         | (Inr None, s1) \<Rightarrow> (Inl AttributeError, s1)
         | (Inr (Some element), s1) \<Rightarrow>
             (case text_reads element 0 of
                Inl x \<Rightarrow> (Inl x, s1)
              | Inr logged \<Rightarrow>
                  (case text_reads element 1 of
                     Inl x \<Rightarrow> (Inl x, s1)
                   | Inr t \<Rightarrow>
                       (case (if stop_texts = None \<or> stop_texts = Some [] then Inr False
                              else (case text_reads element 2 of
                                      Inl x \<Rightarrow> Inl x
                                    | Inr t2 \<Rightarrow> Inr (in_stop_texts stop_texts t2))) of
                          Inl x \<Rightarrow> (Inl x, s1)
                        | Inr stop \<Rightarrow>
                            if stop then
                              (case text_reads element 3 of
                                 Inl x \<Rightarrow> (Inl x, s1)
                               | Inr logged_again \<Rightarrow> (Inr \<lparr>data = Some t, status = False\<rparr>, s1))
                            else if t = txt then (Inr \<lparr>data = Some t, status = True\<rparr>, s1)
                            else (case sleep validation_wait_time s1 of
                                    Inl x \<Rightarrow> (Inl x, s1)
                                  | Inr s2 \<Rightarrow>
                                      validate_loop drv txt stop_texts max_wait_time no_of_attempts
                                        validation_wait_time (attempts + 1) (Some t) s2)))))
      else (Inr \<lparr>data = d, status = False\<rparr>, s))"
  by pat_completeness auto
termination
  by (relation "measure (\<lambda>(drv, txt, stop_texts, max_wait_time, no_of_attempts,
        validation_wait_time, attempts, d, s). nat (no_of_attempts - int attempts))") auto

declare validate_loop.simps [simp del]

definition validate_text ::
  "web_actions \<Rightarrow> (nat \<Rightarrow> wait_outcome) \<Rightarrow> string \<Rightarrow> string list option \<Rightarrow> real \<Rightarrow> int \<Rightarrow> real \<Rightarrow>
   (exn + Data) \<times> web_actions" where
  "validate_text s drv txt stop_texts max_wait_time no_of_attempts validation_wait_time =
     validate_loop drv txt stop_texts max_wait_time no_of_attempts validation_wait_time 0 None s"

section \<open>Waiting for a text\<close>

text \<open>
  \<open>WebActions.wait_until_text_matches\<close>: a countdown in whole seconds. Each round
  hands the current countdown value to the resolution as its own budget, sleeps one
  second and takes one off. \<open>drv i\<close> is what the resolution of round \<open>i\<close> meets;
  a resolved handle is read once.
\<close>

function wait_until_text_matches_loop ::
  "(nat \<Rightarrow> wait_outcome) \<Rightarrow> string \<Rightarrow> real \<Rightarrow> nat \<Rightarrow> web_actions \<Rightarrow> (exn + bool) \<times> web_actions" where
  "wait_until_text_matches_loop drv txt max_wait_time i s =
     (if max_wait_time > 0 then
        (case get_element_if_exist s max_wait_time (drv i) of
           (Inl x, s1) \<Rightarrow> (Inl x, s1)
         | (Inr element, s1) \<Rightarrow>
             (case (case element of
                      None \<Rightarrow> Inr False
                    | Some e \<Rightarrow>
                        (case text_reads e 0 of Inl x \<Rightarrow> Inl x | Inr t \<Rightarrow> Inr (t = txt))) of
                Inl x \<Rightarrow> (Inl x, s1)
              | Inr matched \<Rightarrow>
                  if matched then (Inr True, s1)
                  else (case sleep 1 s1 of
                          Inl x \<Rightarrow> (Inl x, s1)
                        | Inr s2 \<Rightarrow>
                            wait_until_text_matches_loop drv txt (max_wait_time - 1) (i + 1) s2)))
      else (Inr False, s))"
  by pat_completeness auto
termination
  by (relation "measure (\<lambda>(drv, txt, max_wait_time, i, s). nat \<lceil>max_wait_time\<rceil>)") auto

declare wait_until_text_matches_loop.simps [simp del]

definition wait_until_text_matches ::
  "web_actions \<Rightarrow> (nat \<Rightarrow> wait_outcome) \<Rightarrow> string \<Rightarrow> real \<Rightarrow> (exn + bool) \<times> web_actions" where
  "wait_until_text_matches s drv txt max_wait_time =
     wait_until_text_matches_loop drv txt max_wait_time 0 s"

section \<open>Selection\<close>

text \<open>
  The values a keyword argument of \<open>select_element\<close> can hold; an absent argument is
  Python's \<open>None\<close>, here the \<open>None\<close> of \<open>pyval option\<close>.
\<close>

datatype pyval = PyInt int | PyStr string | PyBool bool | PyFloat real

fun truthy :: "pyval option \<Rightarrow> bool" where
  "truthy None = False"
| "truthy (Some (PyInt i)) = (i \<noteq> 0)"
| "truthy (Some (PyStr t)) = (t \<noteq> [])"
| "truthy (Some (PyBool b)) = b"
| "truthy (Some (PyFloat r)) = (r \<noteq> 0)"

text \<open>Python's \<open>==\<close>: numbers (booleans included) compare by value, strings with strings.\<close>

fun py_num :: "pyval \<Rightarrow> real option" where
  "py_num (PyInt i) = Some (of_int i)"
| "py_num (PyBool b) = Some (if b then 1 else 0)"
| "py_num (PyFloat r) = Some r"
| "py_num (PyStr t) = None"

fun py_eq :: "pyval option \<Rightarrow> pyval option \<Rightarrow> bool" where
  "py_eq None None = True"
| "py_eq (Some (PyStr a)) (Some (PyStr b)) = (a = b)"
| "py_eq (Some a) (Some b) = (py_num a \<noteq> None \<and> py_num a = py_num b)"
| "py_eq _ _ = False"

definition removesuffix :: "string \<Rightarrow> string \<Rightarrow> string" where
  "removesuffix t suf =
     (if suf \<noteq> [] \<and> length suf \<le> length t \<and> drop (length t - length suf) t = suf
      then take (length t - length suf) t else t)"

text \<open>
  \<open>[i for i, a in locals().items() if a == available_option][0]\<close>: the name of the
  first local variable, in declaration order, whose value equals the option. The
  objects among the locals (\<open>self\<close>, the \<open>Select\<close> wrapper, the parameter
  dictionary) equal no argument value and are left out; \<open>available_option\<close> itself
  always matches, so the search never comes back empty.
\<close>

fun first_local :: "(string \<times> pyval option) list \<Rightarrow> pyval option \<Rightarrow> string" where
  "first_local [] v = ''available_option''"
| "first_local ((i, a) # rest) v = (if py_eq a v then i else first_local rest v)"

text \<open>
  The methods a \<open>Select\<close> wrapper offers under the names the dispatcher can build;
  \<open>getattr\<close> on any other name raises.
\<close>

definition select_methods :: "string list" where
  "select_methods =
     [''select_by_index'', ''select_by_visible_text'', ''select_by_value'',
      ''deselect_by_index'', ''deselect_by_visible_text'', ''deselect_by_value'']"

text \<open>
  \<open>WebActions._perform_selection_action\<close>. \<open>prim m v\<close> tells whether the primitive
  \<open>m\<close> of the \<open>Select\<close> wrapper accepts the value \<open>v\<close>. The result names the
  primitive that was invoked and its argument, or is \<open>None\<close> when the element was not
  resolved and nothing was invoked.
\<close>

definition perform_selection_action ::
  "web_actions \<Rightarrow> string \<Rightarrow> string \<Rightarrow> real \<Rightarrow> pyval option \<Rightarrow> pyval option \<Rightarrow> pyval option \<Rightarrow>
   bool \<Rightarrow> string option \<Rightarrow> wait_outcome \<Rightarrow> (string \<Rightarrow> pyval \<Rightarrow> bool) \<Rightarrow>
   (exn + (string \<times> pyval) option) \<times> web_actions" where
  "perform_selection_action s element action max_wait_time index visible_text val is_clickable
       name w prim =
     (case get_element_if_exist s max_wait_time w of
        (Inl x, s1) \<Rightarrow> (Inl x, s1)
      | (Inr None, s1) \<Rightarrow> (Inr None, s1)
      | (Inr (Some e), s1) \<Rightarrow>
          (let locals = [(''element'', Some (PyStr element)), (''action'', Some (PyStr action)),
                 (''max_wait_time'', Some (PyFloat max_wait_time)), (''index'', index),
                 (''visible_text'', visible_text), (''value'', val),
                 (''is_clickable'', Some (PyBool is_clickable)),
                 (''name'', map_option PyStr name)];
               selection_params =
                 foldl (\<lambda>params available_option.
                          case available_option of
                            None \<Rightarrow> params
                          | Some v \<Rightarrow>
                              (removesuffix action ''_element'' @ ''_by_'' @
                                 first_local locals available_option, v))
                       ([], PyStr []) [index, visible_text, val]
           in if fst selection_params \<in> set select_methods
                 \<and> prim (fst selection_params) (snd selection_params)
              then (Inr (Some selection_params), s1)
              else (Inl SelectionNotFoundError, s1)))"

text \<open>
  \<open>WebActions.select_element\<close> and \<open>WebActions.deselect_element\<close>: the guard
  \<open>not any([index, visible_text, value])\<close> tests truthiness.
\<close>

definition select_element ::
  "web_actions \<Rightarrow> string \<Rightarrow> real \<Rightarrow> string option \<Rightarrow> bool \<Rightarrow>
   pyval option \<Rightarrow> pyval option \<Rightarrow> pyval option \<Rightarrow> wait_outcome \<Rightarrow> (string \<Rightarrow> pyval \<Rightarrow> bool) \<Rightarrow>
   (exn + (string \<times> pyval) option) \<times> web_actions" where
  "select_element s element max_wait_time name is_clickable index visible_text val w prim =
     (if \<not> (truthy index \<or> truthy visible_text \<or> truthy val)
      then (Inl ParameterMissingError, s)
      else perform_selection_action s element ''select_element'' max_wait_time
             index visible_text val is_clickable name w prim)"

definition deselect_element ::
  "web_actions \<Rightarrow> string \<Rightarrow> real \<Rightarrow>
   pyval option \<Rightarrow> pyval option \<Rightarrow> pyval option \<Rightarrow> wait_outcome \<Rightarrow> (string \<Rightarrow> pyval \<Rightarrow> bool) \<Rightarrow>
   (exn + (string \<times> pyval) option) \<times> web_actions" where
  "deselect_element s element max_wait_time index visible_text val w prim =
     (if \<not> (truthy index \<or> truthy visible_text \<or> truthy val)
      then (Inl ParameterMissingError, s)
      else perform_selection_action s element ''deselect_element'' max_wait_time
             index visible_text val True None w prim)"

section \<open>Step orchestration\<close>

text \<open>
  A step dictionary, with the keys \<open>repeat_steps_until_success\<close> reads. The keys
  \<open>action\<close>, \<open>element\<close> and \<open>text\<close> are taken as present; an optional key is
  \<open>None\<close> when the dictionary lacks it.
\<close>

record step =
  step_action :: string
  step_element :: string
  step_text :: string
  step_stop_texts :: "string list option"
  step_max_wait_time :: "real option"
  step_no_of_attempts :: "int option"
  step_name :: "string option"

text \<open>
  The local variables of \<open>repeat_steps_until_success\<close> that the loops update, the
  instance, and the number of steps dispatched so far (the index into the world).
\<close>

record run_state =
  rs_max_wait_time :: real
  rs_no_of_attempts :: int
  rs_data :: "string option"
  rs_break_flag :: bool
  rs_self :: web_actions
  rs_ticks :: nat

text \<open>
  The world a run meets: for the \<open>k\<close>-th dispatched step, what the resolution of a
  \<open>validate_text\<close> step finds, and whether the call of any other action raises.
  The orchestrator discards what those other actions return and they leave the
  escalation flag as it was, so all they can do to the run is raise (a selection step
  its \<open>ParameterMissingError\<close>, a click its time-out on an escalating instance, any of
  them a driver fault); the world is free to say so for each step. The time they take is
  not counted on the clock.
\<close>

record world =
  resolves :: "nat \<Rightarrow> wait_outcome"
  raises :: "nat \<Rightarrow> exn option"

definition other_actions :: "string list" where
  "other_actions =
     [''set_text'', ''set_text_enter'', ''click'', ''wait_until_element_exists'',
      ''wait_until_element_text_changes'', ''wait_until_text_matches'', ''select_element'',
      ''deselect_element'', ''switch_to_frame'', ''get_text'', ''get_url'']"

text \<open>
  One round of the inner \<open>for\<close> loop: the two sticky overrides, the dispatch on the
  action, and the pause. A \<open>validate_text\<close> step runs the validation with one attempt
  and an interval of two seconds, stores the text it read and sets the flag on a match.
  An action outside the list is skipped.
\<close>

definition exec_step :: "world \<Rightarrow> real \<Rightarrow> step \<Rightarrow> run_state \<Rightarrow> exn + run_state" where
  "exec_step wd step_wait_time stp st =
     (let st1 = st\<lparr>rs_max_wait_time :=
                     (case step_max_wait_time stp of None \<Rightarrow> rs_max_wait_time st | Some v \<Rightarrow> v),
                   rs_no_of_attempts :=
                     (case step_no_of_attempts stp of None \<Rightarrow> rs_no_of_attempts st | Some v \<Rightarrow> v)\<rparr>;
          k = rs_ticks st1;
          r = (if step_action stp = ''validate_text'' then
                 (case validate_text (rs_self st1) (\<lambda>i. resolves wd k) (step_text stp)
                         (step_stop_texts stp) (rs_max_wait_time st1) 1 2 of
                    (Inl x, s1) \<Rightarrow> Inl x
                  | (Inr is_valid, s1) \<Rightarrow>
                      Inr (st1\<lparr>rs_data := data is_valid,
                               rs_break_flag := (if status is_valid then True else rs_break_flag st1),
                               rs_self := s1\<rparr>))
               else if step_action stp \<in> set other_actions then
                 (case raises wd k of Some x \<Rightarrow> Inl x | None \<Rightarrow> Inr st1)
               else Inr st1)
      in case r of
           Inl x \<Rightarrow> Inl x
         | Inr st2 \<Rightarrow>
             (case sleep step_wait_time (rs_self st2) of
                Inl x \<Rightarrow> Inl x
              | Inr s3 \<Rightarrow> Inr (st2\<lparr>rs_self := s3, rs_ticks := rs_ticks st2 + 1\<rparr>)))"

fun run_steps :: "world \<Rightarrow> real \<Rightarrow> step list \<Rightarrow> run_state \<Rightarrow> exn + run_state" where
  "run_steps wd step_wait_time [] st = Inr st"
| "run_steps wd step_wait_time (stp # rest) st =
     (case exec_step wd step_wait_time stp st of
        Inl x \<Rightarrow> Inl x
      | Inr st1 \<Rightarrow> run_steps wd step_wait_time rest st1)"

text \<open>
  Python's \<open>needle in haystack\<close> on strings, and the test after a pass,
  \<open>any(data in stop_text for stop_text in steps[-1].get("stop_texts", []))\<close>:
  with \<open>data\<close> still \<open>None\<close> the first comparison raises \<open>TypeError\<close>.
\<close>

fun is_substring :: "string \<Rightarrow> string \<Rightarrow> bool" where
  "is_substring needle [] = (needle = [])"
| "is_substring needle (c # cs) = (startswith (c # cs) needle \<or> is_substring needle cs)"

fun any_data_in :: "string option \<Rightarrow> string list \<Rightarrow> exn + bool" where
  "any_data_in d [] = Inr False"
| "any_data_in None (stop_text # rest) = Inl TypeError"
| "any_data_in (Some d) (stop_text # rest) =
     (if is_substring d stop_text then Inr True else any_data_in (Some d) rest)"

definition post_pass_check :: "step list \<Rightarrow> string option \<Rightarrow> exn + bool" where
  "post_pass_check steps d =
     (if steps = [] then Inl IndexError
      else any_data_in d (case step_stop_texts (last steps) of None \<Rightarrow> [] | Some l \<Rightarrow> l))"

text \<open>
  The outer \<open>while no_of_attempts > 0\<close> loop. A step's override can reset the counter in
  every pass, so the loop need not end: \<open>None\<close> is the run that never returns.
\<close>

partial_function (option) outer_loop ::
  "world \<Rightarrow> real \<Rightarrow> step list \<Rightarrow> run_state \<Rightarrow> (exn + run_state) option" where
  "outer_loop wd step_wait_time steps st =
     (if rs_no_of_attempts st > 0 then
        (case run_steps wd step_wait_time steps st of
           Inl x \<Rightarrow> Some (Inl x)
         | Inr st1 \<Rightarrow>
             (let st2 = st1\<lparr>rs_no_of_attempts := rs_no_of_attempts st1 - 1\<rparr> in
              if rs_break_flag st2 then Some (Inr st2)
              else (case post_pass_check steps (rs_data st2) of
                      Inl x \<Rightarrow> Some (Inl x)
                    | Inr hit \<Rightarrow>
                        if hit then Some (Inr (st2\<lparr>rs_break_flag := True\<rparr>))
                        else outer_loop wd step_wait_time steps st2)))
      else Some (Inr st))"

datatype outcome = Flag bool | Captured Data

text \<open>\<open>WebActions.repeat_steps_until_success\<close>.\<close>

definition repeat_steps_until_success ::
  "web_actions \<Rightarrow> world \<Rightarrow> step list \<Rightarrow> real \<Rightarrow> int \<Rightarrow> real \<Rightarrow> bool \<Rightarrow> bool \<Rightarrow>
   (exn + outcome) option" where
  "repeat_steps_until_success s wd steps max_wait_time no_of_attempts step_wait_time
       raise_arg return_data =
     (case outer_loop wd step_wait_time steps
             \<lparr>rs_max_wait_time = max_wait_time, rs_no_of_attempts = no_of_attempts,
              rs_data = None, rs_break_flag = False, rs_self = s, rs_ticks = 0\<rparr> of
        None \<Rightarrow> None
      | Some (Inl x) \<Rightarrow> Some (Inl x)
      | Some (Inr st) \<Rightarrow>
          if \<not> rs_break_flag st then
            (if raise_arg then Some (Inl (StepsFailed no_of_attempts))
             else if return_data then Some (Inr (Captured \<lparr>data = rs_data st, status = False\<rparr>))
             else Some (Inr (Flag False)))
          else if return_data then Some (Inr (Captured \<lparr>data = rs_data st, status = True\<rparr>))
          else Some (Inr (Flag True)))"

section \<open>Terminating the spreadsheet host\<close>

text \<open>
  \<open>ExcelAutomation.quit\<close>. \<open>resp i\<close> is the answer of the host to the \<open>i\<close>-th call
  of \<open>Quit()\<close>: it quits, it raises a \<open>com_error\<close> whose text is the busy message, or
  it raises a \<open>com_error\<close> with another text. The result is the sequence of effects,
  and the exception that ended the call, if any.
\<close>

datatype quit_response = QuitDone | Busy | ComError

datatype effect = QuitCalled | Slept real | TaskKill string

fun quit_loop ::
  "(nat \<Rightarrow> quit_response) \<Rightarrow> string \<Rightarrow> real \<Rightarrow> nat \<Rightarrow> nat \<Rightarrow> effect list \<times> exn option" where
  "quit_loop resp username delay i 0 = ([], None)"
| "quit_loop resp username delay i (Suc k) =
     (case resp i of
        QuitDone \<Rightarrow> ([QuitCalled], None)
      | Busy \<Rightarrow>
          (case sleep_refused delay of
             Some x \<Rightarrow> ([QuitCalled], Some x)
           | None \<Rightarrow>
               (let (tr, e) = quit_loop resp username delay (Suc i) k
                in (QuitCalled # Slept delay # tr, e)))
      | ComError \<Rightarrow>
          (let (tr, e) = quit_loop resp username delay (Suc i) k
           in (QuitCalled # TaskKill username # tr, e)))"

definition quit ::
  "(nat \<Rightarrow> quit_response) \<Rightarrow> string \<Rightarrow> int \<Rightarrow> real \<Rightarrow> effect list \<times> exn option" where
  "quit resp username retries delay = quit_loop resp username delay 0 (nat retries)"

section \<open>Inputs for the instances below\<close>

definition idle :: web_actions where
  "idle = \<lparr>raise_exception = False, clock = 0\<rparr>"

definition escalating :: web_actions where
  "escalating = \<lparr>raise_exception = True, clock = 0\<rparr>"

definition never_located :: "nat \<Rightarrow> wait_outcome" where
  "never_located i = NotLocated"

definition always_busy :: "nat \<Rightarrow> quit_response" where
  "always_busy i = Busy"

definition pending_then_done :: "nat \<Rightarrow> string" where
  "pending_then_done i = (if i < 2 then ''wait'' else ''done'')"

definition located :: "(nat \<Rightarrow> string) \<Rightarrow> nat \<Rightarrow> wait_outcome" where
  "located obs i = Located (steady (obs i))"

definition flickering :: "nat \<Rightarrow> wait_outcome" where
  "flickering i = Located (WebElement (\<lambda>j. if j < 2 then Inr ''done'' else Inr ''error''))"

definition stale :: "nat \<Rightarrow> wait_outcome" where
  "stale i = Located (WebElement (\<lambda>j. Inl StaleElementReferenceException))"

definition located_then_missing :: "nat \<Rightarrow> wait_outcome" where
  "located_then_missing i = (if i < 2 then Located (steady ''wait'') else NotLocated)"

definition failure_busy_failure :: "nat \<Rightarrow> quit_response" where
  "failure_busy_failure i = (if i = 1 then Busy else ComError)"

definition read_status :: step where
  "read_status =
     \<lparr>step_action = ''validate_text'', step_element = ''status'', step_text = ''done'',
      step_stop_texts = None, step_max_wait_time = None, step_no_of_attempts = None,
      step_name = None\<rparr>"

definition click_next :: step where
  "click_next =
     \<lparr>step_action = ''click'', step_element = ''next'', step_text = [],
      step_stop_texts = Some [''error''], step_max_wait_time = None,
      step_no_of_attempts = None, step_name = None\<rparr>"

definition read_then_click :: "step list" where
  "read_then_click = [read_status, click_next]"

definition shows_error :: world where
  "shows_error = \<lparr>resolves = (\<lambda>k. Located (steady ''error'')), raises = (\<lambda>k. None)\<rparr>"

definition start_state :: "int \<Rightarrow> run_state" where
  "start_state n = \<lparr>rs_max_wait_time = 5, rs_no_of_attempts = n, rs_data = None,
     rs_break_flag = False, rs_self = idle, rs_ticks = 0\<rparr>"

definition poll_status :: step where
  "poll_status =
     \<lparr>step_action = ''validate_text'', step_element = ''status'', step_text = ''done'',
      step_stop_texts = None, step_max_wait_time = None, step_no_of_attempts = Some 2,
      step_name = None\<rparr>"

definition done_on_second :: world where
  "done_on_second = \<lparr>resolves = (\<lambda>k. Located (steady (if k < 1 then ''wait'' else ''done''))),
     raises = (\<lambda>k. None)\<rparr>"

definition never_done :: world where
  "never_done = \<lparr>resolves = (\<lambda>k. Located (steady ''wait'')), raises = (\<lambda>k. None)\<rparr>"

section \<open>Properties\<close>

subsection \<open>The time budget and the locator strategy\<close>

text \<open>
  Claim C9. With \<open>elapsed = now - start\<close>, the remaining budget is
  \<open>max 0 (timeout - elapsed)\<close>; it is never negative, and for a fixed start and timeout
  it does not grow as the current time advances.
\<close>

theorem time_left_spec:
  "time_left now start timeout = max 0 (timeout - (now - start)) \<and>
   0 \<le> time_left now start timeout \<and>
   (now \<le> now' \<longrightarrow> time_left now' start timeout \<le> time_left now start timeout)"
  by (simp add: time_left_def Let_def max_def)

theorem time_left_spec_witness:
  "time_left 7 5 10 = max 0 (10 - (7 - 5)) \<and> 0 \<le> time_left 7 5 10 \<and>
   (7::real) \<le> 20 \<and> time_left 20 5 10 \<le> time_left 7 5 10"
  using time_left_spec [of 7 5 10 20] by simp

text \<open>
  Claim C8. The strategy depends on the locator string alone: a string that starts with
  \<open>//\<close> or with \<open>(\<close> is classified \<open>XPATH\<close>, every other string \<open>ID\<close>. (As a
  function of the string, classifying twice gives the same strategy.)
\<close>

theorem get_find_method_spec:
  "((\<exists>r. s = ''//'' @ r) \<or> (\<exists>r. s = ''('' @ r) \<longrightarrow> get_find_method s = ''XPATH'') \<and>
   (\<not> ((\<exists>r. s = ''//'' @ r) \<or> (\<exists>r. s = ''('' @ r)) \<longrightarrow> get_find_method s = ''ID'')"
proof -
  have a: "startswith s ''//'' \<longleftrightarrow> (\<exists>r. s = ''//'' @ r)"
    unfolding startswith_def by (cases s; cases "tl s") auto
  have b: "startswith s ''('' \<longleftrightarrow> (\<exists>r. s = ''('' @ r)"
    unfolding startswith_def by (cases s) auto
  show ?thesis unfolding get_find_method_def a b by simp
qed

theorem get_find_method_spec_witness:
  "get_find_method ''//div[@id=1]'' = ''XPATH'' \<and> get_find_method ''(//a)[2]'' = ''XPATH'' \<and>
   get_find_method ''submit'' = ''ID'' \<and> get_find_method ''/html'' = ''ID''"
  using get_find_method_spec [of "''//div[@id=1]''"] get_find_method_spec [of "''(//a)[2]''"]
    get_find_method_spec [of "''submit''"] get_find_method_spec [of "''/html''"]
  by simp

subsection \<open>The escalation flag\<close>

text \<open>
  Claim C5. Whatever the flag \<open>raise_exception\<close> of the instance holds before a call of
  \<open>check_element_exist\<close>, it holds the same value after it, on every exit: the element
  found, nothing found, or an exception leaving the resolution.
\<close>

theorem check_element_exist_restores_flag:
  "raise_exception (snd (check_element_exist s max_wait_time raise_arg w)) = raise_exception s"
  by (simp add: check_element_exist_def Let_def split: prod.splits sum.splits option.splits)

theorem check_element_exist_restores_flag_witness:
  "raise_exception (snd (check_element_exist escalating 5 False (Located (steady ''ok'')))) = True \<and>
   raise_exception (snd (check_element_exist escalating 5 False NotLocated)) = True \<and>
   raise_exception (snd (check_element_exist escalating 5 True NotLocated)) = True \<and>
   raise_exception (snd (check_element_exist escalating 5 False (Fault KeyboardInterrupt))) = True"
proof -
  have e: "raise_exception escalating = True"
    by (simp add: escalating_def)
  show ?thesis
    unfolding check_element_exist_restores_flag e by simp
qed

lemma check_element_exist_exits:
  "fst (check_element_exist escalating 5 False (Located (steady ''ok''))) = Inr (Some (steady ''ok''))"
  "fst (check_element_exist escalating 5 False NotLocated) = Inr None"
  "fst (check_element_exist escalating 5 True NotLocated) = Inl WebElementNotFoundError"
  "fst (check_element_exist escalating 5 False (Fault KeyboardInterrupt)) = Inl KeyboardInterrupt"
  by (simp_all add: check_element_exist_def get_element_if_exist_def time_left_def escalating_def)

subsection \<open>The validation loop\<close>

lemma sleep_accepts:
  "sleep_refused 0 = None" "sleep_refused 1 = None" "sleep_refused 2 = None"
  by (simp_all add: sleep_refused_def max_sleep_def)

lemma sleep_accepted:
  "sleep_refused d = None \<Longrightarrow> sleep d s = Inr (s\<lparr>clock := clock s + d\<rparr>)"
  by (simp add: sleep_def)

lemma steady_reads: "text_reads (steady t) j = Inr t"
  by (simp add: steady_def)

lemma in_stop_texts_truthy: "in_stop_texts st x \<Longrightarrow> st \<noteq> None \<and> st \<noteq> Some []"
  by (cases st) auto

lemma get_element_located:
  "0 < t \<Longrightarrow> get_element_if_exist s t (Located e) = (Inr (Some e), s)"
  by (simp add: get_element_if_exist_def time_left_def Let_def)

lemma validate_loop_skip:
  assumes "0 < t" and "sleep_refused vw = None" and "int (a + m) \<le> n"
    and "\<forall>j. a \<le> j \<and> j < a + m \<longrightarrow>
           drv j = Located (steady (obs j)) \<and> \<not> in_stop_texts st (obs j) \<and> obs j \<noteq> txt"
  shows "validate_loop drv txt st t n vw a d s =
         validate_loop drv txt st t n vw (a + m)
           (if m = 0 then d else Some (obs (a + m - 1)))
           (s\<lparr>clock := clock s + real m * vw\<rparr>)"
  using assms
proof (induction m arbitrary: a d s)
  case 0
  then show ?case by simp
next
  case (Suc m)
  have here: "drv a = Located (steady (obs a))" "\<not> in_stop_texts st (obs a)" "obs a \<noteq> txt"
    using Suc.prems(4) by auto
  have lt: "int a < n" using Suc.prems(3) by simp
  have step: "validate_loop drv txt st t n vw a d s =
        validate_loop drv txt st t n vw (a + 1) (Some (obs a)) (s\<lparr>clock := clock s + vw\<rparr>)"
    using here lt Suc.prems(1,2)
    by (subst validate_loop.simps) (simp add: get_element_located sleep_accepted steady_reads)
  have rest: "validate_loop drv txt st t n vw (a + 1) (Some (obs a)) (s\<lparr>clock := clock s + vw\<rparr>) =
        validate_loop drv txt st t n vw (a + 1 + m)
          (if m = 0 then Some (obs a) else Some (obs (a + 1 + m - 1)))
          ((s\<lparr>clock := clock s + vw\<rparr>)\<lparr>clock := clock (s\<lparr>clock := clock s + vw\<rparr>) + real m * vw\<rparr>)"
    using Suc.prems by (intro Suc.IH) auto
  show ?case
    unfolding step rest by (simp add: algebra_simps)
qed

lemma validate_loop_exhausted:
  "\<not> int a < n \<Longrightarrow> validate_loop drv txt st t n vw a d s = (Inr \<lparr>data = d, status = False\<rparr>, s)"
  by (subst validate_loop.simps) simp

lemma validate_loop_stop:
  "int a < n \<Longrightarrow> 0 < t \<Longrightarrow> drv a = Located (steady x) \<Longrightarrow> in_stop_texts st x \<Longrightarrow>
   validate_loop drv txt st t n vw a d s = (Inr \<lparr>data = Some x, status = False\<rparr>, s)"
  using in_stop_texts_truthy [of st x]
  by (subst validate_loop.simps) (auto simp: get_element_located steady_reads)

lemma validate_loop_match:
  "int a < n \<Longrightarrow> 0 < t \<Longrightarrow> drv a = Located (steady x) \<Longrightarrow> \<not> in_stop_texts st x \<Longrightarrow> x = txt \<Longrightarrow>
   validate_loop drv txt st t n vw a d s = (Inr \<lparr>data = Some x, status = True\<rparr>, s)"
  by (subst validate_loop.simps) (simp add: get_element_located steady_reads)

lemma validate_loop_absent:
  "int a < n \<Longrightarrow> fst (get_element_if_exist s t (drv a)) = Inr None \<Longrightarrow>
   fst (validate_loop drv txt st t n vw a d s) = Inl AttributeError"
  by (subst validate_loop.simps, cases "get_element_if_exist s t (drv a)") simp

lemma validate_text_stop_case:
  assumes "0 < t" "sleep_refused vw = None" "int k < n"
    and "\<forall>i. int i < n \<longrightarrow> drv i = Located (steady (obs i))"
    and "\<forall>j<k. \<not> in_stop_texts st (obs j) \<and> obs j \<noteq> txt"
    and "in_stop_texts st (obs k)"
  shows "validate_text s drv txt st t n vw =
         (Inr \<lparr>data = Some (obs k), status = False\<rparr>, s\<lparr>clock := clock s + real k * vw\<rparr>)"
proof -
  have "validate_text s drv txt st t n vw =
        validate_loop drv txt st t n vw (0 + k) (if k = 0 then None else Some (obs (0 + k - 1)))
          (s\<lparr>clock := clock s + real k * vw\<rparr>)"
    unfolding validate_text_def by (rule validate_loop_skip [where obs = obs]) (use assms in auto)
  also have "\<dots> = (Inr \<lparr>data = Some (obs k), status = False\<rparr>, s\<lparr>clock := clock s + real k * vw\<rparr>)"
    using assms by (simp add: validate_loop_stop)
  finally show ?thesis .
qed

lemma validate_text_match_case:
  assumes "0 < t" "sleep_refused vw = None" "int k < n"
    and "\<forall>i. int i < n \<longrightarrow> drv i = Located (steady (obs i))"
    and "\<forall>j<k. \<not> in_stop_texts st (obs j) \<and> obs j \<noteq> txt"
    and "\<not> in_stop_texts st (obs k)" "obs k = txt"
  shows "validate_text s drv txt st t n vw =
         (Inr \<lparr>data = Some txt, status = True\<rparr>, s\<lparr>clock := clock s + real k * vw\<rparr>)"
proof -
  have "validate_text s drv txt st t n vw =
        validate_loop drv txt st t n vw (0 + k) (if k = 0 then None else Some (obs (0 + k - 1)))
          (s\<lparr>clock := clock s + real k * vw\<rparr>)"
    unfolding validate_text_def by (rule validate_loop_skip [where obs = obs]) (use assms in auto)
  also have "\<dots> = (Inr \<lparr>data = Some txt, status = True\<rparr>, s\<lparr>clock := clock s + real k * vw\<rparr>)"
    using assms by (simp add: validate_loop_match)
  finally show ?thesis .
qed

lemma validate_text_exhausted_case:
  assumes "0 < t" "sleep_refused vw = None" "0 < n"
    and "\<forall>i. int i < n \<longrightarrow> drv i = Located (steady (obs i))"
    and "\<forall>j. int j < n \<longrightarrow> \<not> in_stop_texts st (obs j) \<and> obs j \<noteq> txt"
  shows "validate_text s drv txt st t n vw =
         (Inr \<lparr>data = Some (obs (nat n - 1)), status = False\<rparr>, s\<lparr>clock := clock s + real (nat n) * vw\<rparr>)"
proof -
  have "validate_text s drv txt st t n vw =
        validate_loop drv txt st t n vw (0 + nat n) (if nat n = 0 then None else Some (obs (0 + nat n - 1)))
          (s\<lparr>clock := clock s + real (nat n) * vw\<rparr>)"
    unfolding validate_text_def by (rule validate_loop_skip [where obs = obs]) (use assms in auto)
  also have "\<dots> = (Inr \<lparr>data = Some (obs (nat n - 1)), status = False\<rparr>, s\<lparr>clock := clock s + real (nat n) * vw\<rparr>)"
    using assms by (simp add: validate_loop_exhausted)
  finally show ?thesis .
qed


lemma get_element_absent:
  "\<not> raise_exception s \<Longrightarrow> t \<le> 0 \<or> w = NotLocated \<or> (\<exists>x. w = Fault x \<and> is_Exception x) \<Longrightarrow>
   fst (get_element_if_exist s t w) = Inr None"
  by (auto simp: get_element_if_exist_def time_left_def Let_def max_def split: prod.splits)


text \<open>
  Claim C1. Let every resolution up to the attempt count \<open>n > 0\<close> find the element,
  and let the handle of attempt \<open>i\<close> show one text, \<open>obs i\<close>, at each of its reads
  (the method reads the text anew for the log line, for \<open>data\<close> and for the stop
  test), with a positive wait time and an interval that \<open>time.sleep\<close> accepts. Then
  \<open>validate_text\<close> returns a result, and its status is true iff some attempt below
  \<open>n\<close> reads the expected text while no attempt up to and including it reads a stop
  text. The first attempt that reads a stop text returns at once with status false and
  that text; the first attempt that reads the expected text (not itself a stop text, which
  the check before it would catch) returns at once with status true; when the \<open>n\<close>
  attempts pass without either, the result is status false with the text of the last
  attempt. The clock shows that a return is immediate: only the pauses of the attempts
  before it have been slept.
\<close>

theorem validate_text_spec:
  assumes "0 < n" and "0 < t" and "sleep_refused vw = None"
    and "\<forall>i. int i < n \<longrightarrow> drv i = Located (steady (obs i))"
  shows "\<exists>D s'. validate_text s drv txt st t n vw = (Inr D, s') \<and>
     (status D \<longleftrightarrow> (\<exists>i. int i < n \<and> obs i = txt \<and> (\<forall>j\<le>i. \<not> in_stop_texts st (obs j)))) \<and>
     (\<forall>k. int k < n \<and> (\<forall>j<k. \<not> in_stop_texts st (obs j) \<and> obs j \<noteq> txt) \<and>
          in_stop_texts st (obs k) \<longrightarrow>
          D = \<lparr>data = Some (obs k), status = False\<rparr> \<and> s' = s\<lparr>clock := clock s + real k * vw\<rparr>) \<and>
     (\<forall>k. int k < n \<and> (\<forall>j<k. \<not> in_stop_texts st (obs j) \<and> obs j \<noteq> txt) \<and>
          \<not> in_stop_texts st (obs k) \<and> obs k = txt \<longrightarrow>
          D = \<lparr>data = Some txt, status = True\<rparr> \<and> s' = s\<lparr>clock := clock s + real k * vw\<rparr>) \<and>
     ((\<forall>j. int j < n \<longrightarrow> \<not> in_stop_texts st (obs j) \<and> obs j \<noteq> txt) \<longrightarrow>
          D = \<lparr>data = Some (obs (nat n - 1)), status = False\<rparr> \<and>
          s' = s\<lparr>clock := clock s + real (nat n) * vw\<rparr>)"
proof -
  define dec where "dec j \<longleftrightarrow> in_stop_texts st (obs j) \<or> obs j = txt" for j
  have undec: "\<not> dec j \<longleftrightarrow> \<not> in_stop_texts st (obs j) \<and> obs j \<noteq> txt" for j
    by (simp add: dec_def)
  show ?thesis
  proof (cases "\<exists>j. int j < n \<and> dec j")
    case True
    then obtain k where k: "int k < n" "dec k" and least: "\<forall>j<k. \<not> (int j < n \<and> dec j)"
      using exists_least_iff [of "\<lambda>j. int j < n \<and> dec j"] by auto
    have before: "\<forall>j<k. \<not> in_stop_texts st (obs j) \<and> obs j \<noteq> txt"
      using least k(1) undec by force
    have uniq: "k' = k"
      if "int k' < n" "\<forall>j<k'. \<not> in_stop_texts st (obs j) \<and> obs j \<noteq> txt" "dec k'" for k'
    proof (rule ccontr)
      assume "k' \<noteq> k"
      then consider "k' < k" | "k < k'" by linarith
      then show False
      proof cases
        case 1 then show ?thesis using before that(3) undec by blast
      next
        case 2 then show ?thesis using that(2) k(2) undec by blast
      qed
    qed
    show ?thesis
    proof (cases "in_stop_texts st (obs k)")
      case stop: True
      have res: "validate_text s drv txt st t n vw =
           (Inr \<lparr>data = Some (obs k), status = False\<rparr>, s\<lparr>clock := clock s + real k * vw\<rparr>)"
        by (rule validate_text_stop_case [where obs = obs and k = k]) (use assms k(1) before stop in auto)
      have no_match: "\<not> (\<exists>i. int i < n \<and> obs i = txt \<and> (\<forall>j\<le>i. \<not> in_stop_texts st (obs j)))"
      proof
        assume "\<exists>i. int i < n \<and> obs i = txt \<and> (\<forall>j\<le>i. \<not> in_stop_texts st (obs j))"
        then obtain i where i: "obs i = txt" "\<forall>j\<le>i. \<not> in_stop_texts st (obs j)" by blast
        show False
        proof (cases "i < k")
          case True then show ?thesis using before i(1) by blast
        next
          case False then show ?thesis using i(2) stop by (simp add: not_less)
        qed
      qed
      show ?thesis
      proof (intro exI conjI allI impI)
        show "validate_text s drv txt st t n vw =
           (Inr \<lparr>data = Some (obs k), status = False\<rparr>, s\<lparr>clock := clock s + real k * vw\<rparr>)"
          by (rule res)
        show "status \<lparr>data = Some (obs k), status = False\<rparr> \<longleftrightarrow>
            (\<exists>i. int i < n \<and> obs i = txt \<and> (\<forall>j\<le>i. \<not> in_stop_texts st (obs j)))"
          using no_match by simp
      next
        fix k' assume "int k' < n \<and> (\<forall>j<k'. \<not> in_stop_texts st (obs j) \<and> obs j \<noteq> txt) \<and>
          in_stop_texts st (obs k')"
        then have "k' = k" using uniq [of k'] by (simp add: dec_def)
        then show "\<lparr>data = Some (obs k), status = False\<rparr> = \<lparr>data = Some (obs k'), status = False\<rparr>"
          and "s\<lparr>clock := clock s + real k * vw\<rparr> = s\<lparr>clock := clock s + real k' * vw\<rparr>"
          by simp_all
      next
        fix k' assume "int k' < n \<and> (\<forall>j<k'. \<not> in_stop_texts st (obs j) \<and> obs j \<noteq> txt) \<and>
          \<not> in_stop_texts st (obs k') \<and> obs k' = txt"
        then have "k' = k" using uniq [of k'] by (simp add: dec_def)
        then have False using stop \<open>int k' < n \<and> _\<close> by simp
        then show "\<lparr>data = Some (obs k), status = False\<rparr> = \<lparr>data = Some txt, status = True\<rparr>"
          and "s\<lparr>clock := clock s + real k * vw\<rparr> = s\<lparr>clock := clock s + real k' * vw\<rparr>"
          by simp_all
      next
        assume "\<forall>j. int j < n \<longrightarrow> \<not> in_stop_texts st (obs j) \<and> obs j \<noteq> txt"
        then have False using k stop by blast
        then show "\<lparr>data = Some (obs k), status = False\<rparr> = \<lparr>data = Some (obs (nat n - 1)), status = False\<rparr>"
          and "s\<lparr>clock := clock s + real k * vw\<rparr> = s\<lparr>clock := clock s + real (nat n) * vw\<rparr>"
          by simp_all
      qed
    next
      case nostop: False
      then have eq: "obs k = txt" using k(2) by (simp add: dec_def)
      have res: "validate_text s drv txt st t n vw =
           (Inr \<lparr>data = Some txt, status = True\<rparr>, s\<lparr>clock := clock s + real k * vw\<rparr>)"
        by (rule validate_text_match_case [where obs = obs and k = k]) (use assms k(1) before nostop eq in auto)
      have match: "\<exists>i. int i < n \<and> obs i = txt \<and> (\<forall>j\<le>i. \<not> in_stop_texts st (obs j))"
      proof (intro exI [of _ k] conjI allI impI)
        fix j assume "j \<le> k"
        then show "\<not> in_stop_texts st (obs j)" using before nostop by (cases "j = k") auto
      qed (use k eq in auto)
      show ?thesis
      proof (intro exI conjI allI impI)
        show "validate_text s drv txt st t n vw =
           (Inr \<lparr>data = Some txt, status = True\<rparr>, s\<lparr>clock := clock s + real k * vw\<rparr>)"
          by (rule res)
        show "status \<lparr>data = Some txt, status = True\<rparr> \<longleftrightarrow>
            (\<exists>i. int i < n \<and> obs i = txt \<and> (\<forall>j\<le>i. \<not> in_stop_texts st (obs j)))"
          using match by simp
      next
        fix k' assume "int k' < n \<and> (\<forall>j<k'. \<not> in_stop_texts st (obs j) \<and> obs j \<noteq> txt) \<and>
          in_stop_texts st (obs k')"
        then have "k' = k" using uniq [of k'] by (simp add: dec_def)
        then have False using nostop \<open>int k' < n \<and> _\<close> by simp
        then show "\<lparr>data = Some txt, status = True\<rparr> = \<lparr>data = Some (obs k'), status = False\<rparr>"
          and "s\<lparr>clock := clock s + real k * vw\<rparr> = s\<lparr>clock := clock s + real k' * vw\<rparr>"
          by simp_all
      next
        fix k' assume "int k' < n \<and> (\<forall>j<k'. \<not> in_stop_texts st (obs j) \<and> obs j \<noteq> txt) \<and>
          \<not> in_stop_texts st (obs k') \<and> obs k' = txt"
        then have "k' = k" using uniq [of k'] by (simp add: dec_def)
        then show "\<lparr>data = Some txt, status = True\<rparr> = \<lparr>data = Some txt, status = True\<rparr>"
          and "s\<lparr>clock := clock s + real k * vw\<rparr> = s\<lparr>clock := clock s + real k' * vw\<rparr>"
          by simp_all
      next
        assume "\<forall>j. int j < n \<longrightarrow> \<not> in_stop_texts st (obs j) \<and> obs j \<noteq> txt"
        then have False using k eq by blast
        then show "\<lparr>data = Some txt, status = True\<rparr> = \<lparr>data = Some (obs (nat n - 1)), status = False\<rparr>"
          and "s\<lparr>clock := clock s + real k * vw\<rparr> = s\<lparr>clock := clock s + real (nat n) * vw\<rparr>"
          by simp_all
      qed
    qed
  next
    case False
    then have none: "\<forall>j. int j < n \<longrightarrow> \<not> in_stop_texts st (obs j) \<and> obs j \<noteq> txt"
      using undec by blast
    have res: "validate_text s drv txt st t n vw =
         (Inr \<lparr>data = Some (obs (nat n - 1)), status = False\<rparr>,
          s\<lparr>clock := clock s + real (nat n) * vw\<rparr>)"
      by (rule validate_text_exhausted_case [where obs = obs]) (use assms none in auto)
    show ?thesis
    proof (intro exI conjI allI impI)
      show "validate_text s drv txt st t n vw =
         (Inr \<lparr>data = Some (obs (nat n - 1)), status = False\<rparr>,
          s\<lparr>clock := clock s + real (nat n) * vw\<rparr>)"
        by (rule res)
      show "status \<lparr>data = Some (obs (nat n - 1)), status = False\<rparr> \<longleftrightarrow>
          (\<exists>i. int i < n \<and> obs i = txt \<and> (\<forall>j\<le>i. \<not> in_stop_texts st (obs j)))"
        using none by auto
    next
      fix k' assume "int k' < n \<and> (\<forall>j<k'. \<not> in_stop_texts st (obs j) \<and> obs j \<noteq> txt) \<and>
        in_stop_texts st (obs k')"
      then have False using none by blast
      then show "\<lparr>data = Some (obs (nat n - 1)), status = False\<rparr> = \<lparr>data = Some (obs k'), status = False\<rparr>"
        and "s\<lparr>clock := clock s + real (nat n) * vw\<rparr> = s\<lparr>clock := clock s + real k' * vw\<rparr>"
        by simp_all
    next
      fix k' assume "int k' < n \<and> (\<forall>j<k'. \<not> in_stop_texts st (obs j) \<and> obs j \<noteq> txt) \<and>
        \<not> in_stop_texts st (obs k') \<and> obs k' = txt"
      then have False using none by blast
      then show "\<lparr>data = Some (obs (nat n - 1)), status = False\<rparr> = \<lparr>data = Some txt, status = True\<rparr>"
        and "s\<lparr>clock := clock s + real (nat n) * vw\<rparr> = s\<lparr>clock := clock s + real k' * vw\<rparr>"
        by simp_all
    qed simp_all
  qed
qed

theorem validate_text_spec_witness:
  "validate_text idle (located pending_then_done) ''done'' (Some [''error'']) 5 3 2 =
     (Inr \<lparr>data = Some ''done'', status = True\<rparr>, idle\<lparr>clock := 4\<rparr>)"
proof -
  have loc: "\<forall>i. int i < 3 \<longrightarrow> located pending_then_done i = Located (steady (pending_then_done i))"
    by (simp add: located_def)
  have k: "int 2 < 3 \<and> (\<forall>j<2. \<not> in_stop_texts (Some [''error'']) (pending_then_done j) \<and>
             pending_then_done j \<noteq> ''done'') \<and>
           \<not> in_stop_texts (Some [''error'']) (pending_then_done 2) \<and> pending_then_done 2 = ''done''"
    by (simp add: pending_then_done_def)
  from validate_text_spec [of 3 5 2 "located pending_then_done" pending_then_done idle "''done''"
      "Some [''error'']", OF _ _ sleep_accepts(3) loc]
  obtain D s' where r: "validate_text idle (located pending_then_done) ''done'' (Some [''error'']) 5 3 2 = (Inr D, s')"
    and m: "\<forall>k. int k < 3 \<and> (\<forall>j<k. \<not> in_stop_texts (Some [''error'']) (pending_then_done j) \<and>
             pending_then_done j \<noteq> ''done'') \<and>
           \<not> in_stop_texts (Some [''error'']) (pending_then_done k) \<and> pending_then_done k = ''done'' \<longrightarrow>
          D = \<lparr>data = Some ''done'', status = True\<rparr> \<and> s' = idle\<lparr>clock := clock idle + real k * 2\<rparr>"
    by auto
  from m k have "D = \<lparr>data = Some ''done'', status = True\<rparr> \<and> s' = idle\<lparr>clock := clock idle + real 2 * 2\<rparr>"
    by blast
  then show ?thesis unfolding r by (simp add: idle_def)
qed


text \<open>
  Outside these hypotheses the method leaves the claim's picture of one observation per
  attempt. A handle whose text changes between the read for \<open>data\<close> and the read for
  the stop test gives the expected text as data with status false; a read that raises, or
  an interval that \<open>time.sleep\<close> refuses, ends the call with that exception.
\<close>

lemma validate_text_unsteady_reads:
  "validate_text idle flickering ''done'' (Some [''error'']) 5 3 2 =
     (Inr \<lparr>data = Some ''done'', status = False\<rparr>, idle)"
  unfolding validate_text_def
  by (subst validate_loop.simps) (simp add: get_element_located flickering_def)

lemma validate_text_read_raises:
  "validate_text idle stale ''done'' (Some [''error'']) 5 3 2 =
     (Inl StaleElementReferenceException, idle)"
  unfolding validate_text_def
  by (subst validate_loop.simps) (simp add: get_element_located stale_def)

lemma validate_text_sleep_refused:
  "validate_text idle (located pending_then_done) ''done'' (Some [''error'']) 5 3 (10 ^ 10) =
     (Inl OverflowError, idle)"
  unfolding validate_text_def
  by (subst validate_loop.simps)
     (simp add: get_element_located located_def pending_then_done_def steady_reads sleep_def
        sleep_refused_def max_sleep_def)

text \<open>
  Claim C10. When the attempts before attempt \<open>k < n\<close> each found the element with a
  text that is neither a stop text nor the expected one, and the resolution of attempt
  \<open>k\<close> returns \<open>None\<close>, then \<open>validate_text\<close> returns no result at all: it
  raises \<open>AttributeError\<close>. (The attempts before \<open>k\<close> must have let the loop go on:
  their handles show one text at each read, and the pause after them is one that
  \<open>time.sleep\<close> accepts.)
\<close>

theorem validate_text_absent_element:
  assumes "0 < t" and "0 \<le> vw" and "k = 0 \<or> vw \<le> max_sleep" and "int k < n"
    and "\<forall>j<k. drv j = Located (steady (obs j)) \<and> \<not> in_stop_texts st (obs j) \<and> obs j \<noteq> txt"
    and "fst (get_element_if_exist (s\<lparr>clock := clock s + real k * vw\<rparr>) t (drv k)) = Inr None"
  shows "fst (validate_text s drv txt st t n vw) = Inl AttributeError"
proof (cases "k = 0")
  case True
  then show ?thesis
    using assms(4,6) by (simp add: validate_text_def validate_loop_absent)
next
  case False
  then have ok: "sleep_refused vw = None"
    using assms(2,3) by (simp add: sleep_refused_def)
  have "validate_text s drv txt st t n vw =
        validate_loop drv txt st t n vw (0 + k) (if k = 0 then None else Some (obs (0 + k - 1)))
          (s\<lparr>clock := clock s + real k * vw\<rparr>)"
    unfolding validate_text_def by (rule validate_loop_skip [where obs = obs]) (use assms ok in auto)
  then show ?thesis
    using assms(4,6) by (simp add: validate_loop_absent)
qed

theorem validate_text_absent_element_witness:
  "fst (validate_text idle located_then_missing ''done'' (Some [''error'']) 5 3 2) = Inl AttributeError"
proof -
  have a: "\<forall>j<2. located_then_missing j = Located (steady (pending_then_done j)) \<and>
       \<not> in_stop_texts (Some [''error'']) (pending_then_done j) \<and> pending_then_done j \<noteq> ''done''"
    by (simp add: located_then_missing_def pending_then_done_def)
  have b: "fst (get_element_if_exist (idle\<lparr>clock := clock idle + real 2 * 2\<rparr>) 5 (located_then_missing 2)) = Inr None"
    by (simp add: get_element_if_exist_def time_left_def idle_def located_then_missing_def)
  have c: "(2::nat) = 0 \<or> (2::real) \<le> max_sleep"
    by (simp add: max_sleep_def)
  show ?thesis
    using validate_text_absent_element [of 5 2 2 3 located_then_missing pending_then_done
        "Some [''error'']" "''done''" idle, OF _ _ c _ a b]
    by simp
qed

subsection \<open>Selection\<close>

lemma perform_selection_never_parameter_missing:
  "fst (perform_selection_action s element action t index visible_text val ic nm w prim) \<noteq> Inl ParameterMissingError"
  by (cases w)
     (auto simp: perform_selection_action_def get_element_if_exist_def Let_def
           split: prod.splits sum.splits option.splits if_splits)

text \<open>
  The guard raises exactly when none of the three arguments is truthy, which is more than
  when all three are absent: a supplied \<open>0\<close> or empty string is refused too.
\<close>

lemma select_element_guard:
  "fst (select_element s element t nm ic index visible_text val w prim) = Inl ParameterMissingError
   \<longleftrightarrow> \<not> (truthy index \<or> truthy visible_text \<or> truthy val)"
  using perform_selection_never_parameter_missing [of s element "''select_element''" t index visible_text val ic nm w prim]
  by (simp add: select_element_def)

lemma select_element_all_absent:
  "select_element s element t nm ic None None None w prim = (Inl ParameterMissingError, s)"
  "deselect_element s element t None None None w prim = (Inl ParameterMissingError, s)"
  by (simp_all add: select_element_def deselect_element_def)

lemma select_element_empty_text:
  "select_element s element t nm ic None (Some (PyStr [])) None w prim = (Inl ParameterMissingError, s)"
  by (simp add: select_element_def)

text \<open>
  Claim C3 asks that a supplied index, the index 0 included, never raises
  \<open>ParameterMissingError\<close>. On the code, \<open>select_element\<close> and
  \<open>deselect_element\<close> called with \<open>index=0\<close> alone raise it, before any resolution
  (the instance is returned unchanged).
\<close>

theorem select_element_index_zero:
  "select_element s element t nm ic (Some (PyInt 0)) None None w prim = (Inl ParameterMissingError, s) \<and>
   deselect_element s element t (Some (PyInt 0)) None None w prim = (Inl ParameterMissingError, s)"
  by (simp add: select_element_def deselect_element_def)

text \<open>
  With a truthy index the primitive \<open>select_by_index\<close> is invoked; the name of the
  primitive is looked up by value among the local variables, so an index equal to the
  wait time is taken for \<open>max_wait_time\<close> and the selection fails.
\<close>

lemma select_element_by_index:
  "select_element idle ''country'' 300 None True (Some (PyInt 2)) None None (Located (steady ''x'')) (\<lambda>m v. True)
     = (Inr (Some (''select_by_index'', PyInt 2)), idle)"
  by (simp add: select_element_def perform_selection_action_def get_element_if_exist_def
        time_left_def idle_def removesuffix_def select_methods_def)

lemma select_element_index_equal_to_wait:
  "select_element idle ''country'' 300 None True (Some (PyInt 300)) None None (Located (steady ''x'')) (\<lambda>m v. True)
     = (Inl SelectionNotFoundError, idle)"
  by (simp add: select_element_def perform_selection_action_def get_element_if_exist_def
        time_left_def idle_def removesuffix_def select_methods_def)

subsection \<open>Waiting for a text\<close>

lemma wait_never_located_elapsed:
  "\<not> raise_exception s \<Longrightarrow>
   wait_until_text_matches_loop never_located txt (real T) i s =
     (Inr False, s\<lparr>clock := clock s + real (T * (T + 3)) / 2\<rparr>)"
proof (induction T arbitrary: i s)
  case 0
  then show ?case by (subst wait_until_text_matches_loop.simps) simp
next
  case (Suc T)
  have "wait_until_text_matches_loop never_located txt (real (Suc T)) i s =
        wait_until_text_matches_loop never_located txt (real T) (i + 1)
          (s\<lparr>clock := clock s + real (Suc T) + 1\<rparr>)"
    using Suc.prems
    by (subst wait_until_text_matches_loop.simps)
       (simp add: get_element_if_exist_def time_left_def sleep_accepted sleep_accepts
          never_located_def max_def)
  also have "\<dots> = (Inr False, (s\<lparr>clock := clock s + real (Suc T) + 1\<rparr>)
        \<lparr>clock := clock (s\<lparr>clock := clock s + real (Suc T) + 1\<rparr>) + real (T * (T + 3)) / 2\<rparr>)"
    using Suc.prems by (intro Suc.IH) simp
  finally show ?case by (simp add: algebra_simps)
qed

text \<open>
  Claim C4 asks that a wait that never succeeds returns within the timeout plus one
  interval. On the code, with a timeout of 3 seconds and an element that is never
  located, the rounds block for 3, 2 and 1 seconds and sleep one second each: the call
  returns false after 9 seconds.
\<close>

theorem wait_until_text_matches_overrun:
  "wait_until_text_matches idle never_located ''done'' 3 = (Inr False, idle\<lparr>clock := 9\<rparr>) \<and>
   (3::real) + 1 < 9"
  by (simp add: wait_until_text_matches_def wait_until_text_matches_loop.simps
        get_element_if_exist_def time_left_def sleep_accepted sleep_accepts never_located_def
        idle_def)

subsection \<open>Terminating the spreadsheet host\<close>

lemma quit_loop_all_busy:
  "sleep_refused d = None \<Longrightarrow> \<forall>j. i \<le> j \<and> j < i + k \<longrightarrow> resp j = Busy \<Longrightarrow>
   quit_loop resp u d i k = (concat (replicate k [QuitCalled, Slept d]), None)"
proof (induction k arbitrary: i)
  case 0
  then show ?case by simp
next
  case (Suc k)
  have here: "resp i = Busy" using Suc.prems(2) by simp
  have "quit_loop resp u d (Suc i) k = (concat (replicate k [QuitCalled, Slept d]), None)"
    using Suc.prems by (intro Suc.IH) auto
  then show ?case using here Suc.prems(1) by simp
qed

text \<open>
  As long as no call of \<open>Quit()\<close> succeeds, every attempt leaves two effects: the call
  and, after a busy answer, the sleep, or, after another failure, the forced kill.
\<close>

lemma quit_loop_no_success:
  "sleep_refused d = None \<Longrightarrow> \<forall>j. i \<le> j \<and> j < i + k \<longrightarrow> resp j \<noteq> QuitDone \<Longrightarrow>
   quit_loop resp u d i k =
     (concat (map (\<lambda>j. if resp j = Busy then [QuitCalled, Slept d] else [QuitCalled, TaskKill u])
        [i..<i + k]), None)"
proof (induction k arbitrary: i)
  case 0
  then show ?case by simp
next
  case (Suc k)
  have here: "resp i \<noteq> QuitDone" using Suc.prems(2) by simp
  have rest: "quit_loop resp u d (Suc i) k =
     (concat (map (\<lambda>j. if resp j = Busy then [QuitCalled, Slept d] else [QuitCalled, TaskKill u])
        [Suc i..<Suc i + k]), None)"
    using Suc.prems by (intro Suc.IH) auto
  have range: "[i..<i + Suc k] = i # [Suc i..<Suc i + k]"
    by (simp add: upt_conv_Cons)
  show ?case
    using here Suc.prems(1) unfolding range
    by (cases "resp i") (simp_all add: rest)
qed

lemma quit_loop_kill_at:
  "sleep_refused d = None \<Longrightarrow> \<forall>j<k. resp (i + j) \<noteq> QuitDone \<Longrightarrow> resp (i + k) = ComError \<Longrightarrow>
   k < n \<Longrightarrow>
   take 2 (drop (2 * k) (fst (quit_loop resp u d i n))) = [QuitCalled, TaskKill u]"
proof (induction k arbitrary: i n)
  case 0
  then obtain n' where n: "n = Suc n'" by (cases n) auto
  show ?case using 0 unfolding n by (simp add: case_prod_beta)
next
  case (Suc k)
  then obtain n' where n: "n = Suc n'" by (cases n) auto
  have here: "resp i \<noteq> QuitDone" using Suc.prems(2) [rule_format, of 0] by simp
  have later: "\<forall>j<k. resp (Suc i + j) \<noteq> QuitDone"
    using Suc.prems(2) by (metis Suc_less_eq add_Suc_right add_Suc)
  have "take 2 (drop (2 * k) (fst (quit_loop resp u d (Suc i) n'))) = [QuitCalled, TaskKill u]"
    using Suc.prems n later by (intro Suc.IH) auto
  then show ?case
    using here Suc.prems(1) unfolding n
    by (cases "resp i") (simp_all add: case_prod_beta)
qed

text \<open>
  Claim C7 as stated fails. Facing three busy answers with three retries and a delay of
  two seconds, \<open>quit\<close> calls \<open>Quit()\<close> three times, sleeps after each, and returns
  with no forced kill. And not every delay gives \<open>r\<close> retries: with a negative delay,
  or one that \<open>time.sleep\<close> cannot hold, the first sleep raises and the call ends after
  one attempt.
\<close>

theorem quit_busy_exhausted_counterexample:
  "quit always_busy ''user'' 3 2 =
     ([QuitCalled, Slept 2, QuitCalled, Slept 2, QuitCalled, Slept 2], None) \<and>
   TaskKill ''user'' \<notin> set (fst (quit always_busy ''user'' 3 2)) \<and>
   quit always_busy ''user'' 3 (- 1) = ([QuitCalled], Some ValueError) \<and>
   quit always_busy ''user'' 3 (10 ^ 10) = ([QuitCalled], Some OverflowError)"
  by (simp add: quit_def always_busy_def numeral_3_eq_3 sleep_refused_def max_sleep_def)

text \<open>
  Claim C7, amended. Let \<open>d\<close> be a delay that \<open>time.sleep\<close> accepts. When the host
  answers busy to every one of the \<open>r\<close> calls, \<open>quit\<close> makes exactly \<open>r\<close> graceful
  attempts, sleeps \<open>d\<close> after each, and returns with no forced kill. A failure other
  than busy, at whichever attempt \<open>k < r\<close> the loop reaches (no call before it
  succeeded), is followed at once by the forced kill for the current user: every attempt
  before it left two effects, and the two effects from position \<open>2 * k\<close> on are the
  call of \<open>Quit()\<close> and the kill.
\<close>

theorem quit_retries_spec:
  assumes "sleep_refused d = None"
  shows "((\<forall>i. int i < r \<longrightarrow> resp i = Busy) \<longrightarrow>
            quit resp u r d = (concat (replicate (nat r) [QuitCalled, Slept d]), None) \<and>
            TaskKill u \<notin> set (fst (quit resp u r d))) \<and>
         (int k < r \<and> (\<forall>i<k. resp i \<noteq> QuitDone) \<and> resp k = ComError \<longrightarrow>
            take 2 (drop (2 * k) (fst (quit resp u r d))) = [QuitCalled, TaskKill u])"
proof (intro conjI impI)
  assume "\<forall>i. int i < r \<longrightarrow> resp i = Busy"
  then show trace: "quit resp u r d = (concat (replicate (nat r) [QuitCalled, Slept d]), None)"
    unfolding quit_def using assms by (intro quit_loop_all_busy) auto
  show "TaskKill u \<notin> set (fst (quit resp u r d))"
    unfolding trace by (auto simp: set_replicate_conv_if)
next
  assume a: "int k < r \<and> (\<forall>i<k. resp i \<noteq> QuitDone) \<and> resp k = ComError"
  show "take 2 (drop (2 * k) (fst (quit resp u r d))) = [QuitCalled, TaskKill u]"
    unfolding quit_def using a assms by (intro quit_loop_kill_at) auto
qed

theorem quit_retries_spec_witness:
  "quit always_busy ''user'' 3 2 = (concat (replicate (nat 3) [QuitCalled, Slept 2]), None) \<and>
   TaskKill ''user'' \<notin> set (fst (quit always_busy ''user'' 3 2)) \<and>
   take 2 (drop (2 * 0) (fst (quit failure_busy_failure ''user'' 3 2))) =
     [QuitCalled, TaskKill ''user''] \<and>
   take 2 (drop (2 * 2) (fst (quit failure_busy_failure ''user'' 3 2))) =
     [QuitCalled, TaskKill ''user'']"
proof -
  have b: "\<forall>i. int i < 3 \<longrightarrow> always_busy i = Busy"
    by (simp add: always_busy_def)
  have f0: "int 0 < 3 \<and> (\<forall>i<0. failure_busy_failure i \<noteq> QuitDone) \<and>
      failure_busy_failure 0 = ComError"
    by (simp add: failure_busy_failure_def)
  have f2: "int 2 < 3 \<and> (\<forall>i<2. failure_busy_failure i \<noteq> QuitDone) \<and>
      failure_busy_failure 2 = ComError"
    by (simp add: failure_busy_failure_def)
  show ?thesis
    using quit_retries_spec [OF sleep_accepts(3), of 3 always_busy "''user''" 0]
      quit_retries_spec [OF sleep_accepts(3), of 3 failure_busy_failure "''user''" 0]
      quit_retries_spec [OF sleep_accepts(3), of 3 failure_busy_failure "''user''" 2] b f0 f2
    by blast
qed

text \<open>
  The whole run on the answers failure, busy, failure: a kill after the first and after
  the third attempt.
\<close>

lemma quit_failure_busy_failure:
  "quit failure_busy_failure ''user'' 3 2 =
     ([QuitCalled, TaskKill ''user'', QuitCalled, Slept 2, QuitCalled, TaskKill ''user''], None)"
  by (simp add: quit_def failure_busy_failure_def numeral_3_eq_3 sleep_accepts)

subsection \<open>Step orchestration\<close>

lemma is_substring_refl: "is_substring d d"
  by (cases d) (simp_all add: startswith_def)

lemma any_data_in_member: "d \<in> set l \<Longrightarrow> any_data_in (Some d) l = Inr True"
  by (induction l) (auto simp: is_substring_refl)

lemma outer_loop_after_pass:
  assumes "0 < rs_no_of_attempts st" and "run_steps wd swt steps st = Inr st1"
    and "\<not> rs_break_flag st1"
  shows "outer_loop wd swt steps st =
     (case post_pass_check steps (rs_data st1) of
        Inl x \<Rightarrow> Some (Inl x)
      | Inr hit \<Rightarrow>
          if hit then Some (Inr (st1\<lparr>rs_no_of_attempts := rs_no_of_attempts st1 - 1, rs_break_flag := True\<rparr>))
          else outer_loop wd swt steps (st1\<lparr>rs_no_of_attempts := rs_no_of_attempts st1 - 1\<rparr>))"
  using assms by (subst outer_loop.simps) (simp add: Let_def)

lemma validate_text_single:
  assumes "0 < t" and "drv 0 = Located (steady x)"
  shows "validate_text s drv txt st t 1 2 =
     (if in_stop_texts st x then (Inr \<lparr>data = Some x, status = False\<rparr>, s)
      else if x = txt then (Inr \<lparr>data = Some x, status = True\<rparr>, s)
      else (Inr \<lparr>data = Some x, status = False\<rparr>, s\<lparr>clock := clock s + 2\<rparr>))"
proof -
  have fin: "validate_loop drv txt st t 1 2 (Suc 0) d s' = (Inr \<lparr>data = d, status = False\<rparr>, s')" for d s'
    by (subst validate_loop.simps) simp
  show ?thesis
    unfolding validate_text_def
    by (subst validate_loop.simps)
       (simp add: assms get_element_located steady_reads sleep_accepted sleep_accepts fin)
qed


lemma exec_step_other:
  assumes "step_action stp \<noteq> ''validate_text''" and "step_action stp \<in> set other_actions"
    and "raises wd (rs_ticks st) = None" and "sleep_refused swt = None"
  shows "exec_step wd swt stp st =
     Inr (st\<lparr>rs_max_wait_time :=
                (case step_max_wait_time stp of None \<Rightarrow> rs_max_wait_time st | Some v \<Rightarrow> v),
              rs_no_of_attempts :=
                (case step_no_of_attempts stp of None \<Rightarrow> rs_no_of_attempts st | Some v \<Rightarrow> v),
              rs_self := (rs_self st)\<lparr>clock := clock (rs_self st) + swt\<rparr>,
              rs_ticks := rs_ticks st + 1\<rparr>)"
  using assms by (simp add: exec_step_def Let_def sleep_accepted)

lemma exec_step_validate:
  assumes "step_action stp = ''validate_text''" and "sleep_refused swt = None"
    and "validate_text (rs_self st) (\<lambda>i. resolves wd (rs_ticks st)) (step_text stp)
           (step_stop_texts stp)
           (case step_max_wait_time stp of None \<Rightarrow> rs_max_wait_time st | Some v \<Rightarrow> v) 1 2 =
         (Inr D, s1)"
  shows "exec_step wd swt stp st =
     Inr (st\<lparr>rs_max_wait_time :=
                (case step_max_wait_time stp of None \<Rightarrow> rs_max_wait_time st | Some v \<Rightarrow> v),
              rs_no_of_attempts :=
                (case step_no_of_attempts stp of None \<Rightarrow> rs_no_of_attempts st | Some v \<Rightarrow> v),
              rs_data := data D,
              rs_break_flag := (if status D then True else rs_break_flag st),
              rs_self := s1\<lparr>clock := clock s1 + swt\<rparr>,
              rs_ticks := rs_ticks st + 1\<rparr>)"
  using assms by (simp add: exec_step_def Let_def sleep_accepted)

lemma read_status_sees_error:
  "exec_step shows_error 0 read_status (start_state 3) =
     Inr \<lparr>rs_max_wait_time = 5, rs_no_of_attempts = 3, rs_data = Some ''error'',
          rs_break_flag = False, rs_self = idle\<lparr>clock := 2\<rparr>, rs_ticks = 1\<rparr>"
proof -
  have v: "validate_text idle (\<lambda>i. Located (steady ''error'')) ''done'' None 5 1 2 =
      (Inr \<lparr>data = Some ''error'', status = False\<rparr>, idle\<lparr>clock := clock idle + 2\<rparr>)"
    by (simp add: validate_text_single)
  have "exec_step shows_error 0 read_status (start_state 3) =
     Inr ((start_state 3)\<lparr>rs_max_wait_time := 5, rs_no_of_attempts := 3,
            rs_data := data \<lparr>data = Some ''error'', status = False\<rparr>,
            rs_break_flag := False,
            rs_self := (idle\<lparr>clock := clock idle + 2\<rparr>)\<lparr>clock := clock (idle\<lparr>clock := clock idle + 2\<rparr>) + 0\<rparr>,
            rs_ticks := rs_ticks (start_state 3) + 1\<rparr>)"
    using v
    by (subst exec_step_validate [where D = "\<lparr>data = Some ''error'', status = False\<rparr>"
          and ?s1.0 = "idle\<lparr>clock := clock idle + 2\<rparr>"])
       (simp_all add: read_status_def shows_error_def start_state_def sleep_accepts)
  then show ?thesis
    by (simp add: start_state_def idle_def)
qed


lemma click_fields:
  "step_action click_next = ''click''" "step_max_wait_time click_next = None"
  "step_no_of_attempts click_next = None"
  by (simp_all add: click_next_def)

lemma click_is_other: "''click'' \<noteq> ''validate_text''" "''click'' \<in> set other_actions"
  by (simp_all add: other_actions_def)

lemma click_next_passes:
  "exec_step shows_error 0 click_next
       \<lparr>rs_max_wait_time = 5, rs_no_of_attempts = 3, rs_data = Some ''error'',
          rs_break_flag = False, rs_self = idle\<lparr>clock := 2\<rparr>, rs_ticks = 1\<rparr> =
     Inr \<lparr>rs_max_wait_time = 5, rs_no_of_attempts = 3, rs_data = Some ''error'',
          rs_break_flag = False, rs_self = idle\<lparr>clock := 2\<rparr>, rs_ticks = 2\<rparr>"
proof -
  have r: "raises shows_error k = None" for k
    by (simp add: shows_error_def)
  show ?thesis
    by (subst exec_step_other) (simp_all add: click_fields click_is_other r sleep_accepts)
qed

lemma read_then_click_pass:
  "run_steps shows_error 0 read_then_click (start_state 3) =
     Inr \<lparr>rs_max_wait_time = 5, rs_no_of_attempts = 3, rs_data = Some ''error'',
          rs_break_flag = False, rs_self = idle\<lparr>clock := 2\<rparr>, rs_ticks = 2\<rparr>"
  by (simp only: read_then_click_def run_steps.simps read_status_sees_error click_next_passes
        sum.case)

lemma exec_step_attempts_override:
  "step_no_of_attempts stp = Some v \<Longrightarrow>
   exec_step wd swt stp (st\<lparr>rs_no_of_attempts := n\<rparr>) = exec_step wd swt stp st"
  by (cases "step_max_wait_time stp") (simp_all add: exec_step_def Let_def)

lemma exec_step_attempts_keep:
  "step_no_of_attempts stp = None \<Longrightarrow>
   exec_step wd swt stp (st\<lparr>rs_no_of_attempts := n\<rparr>) =
     map_sum id (\<lambda>s. s\<lparr>rs_no_of_attempts := n\<rparr>) (exec_step wd swt stp st)"
proof (cases "step_max_wait_time stp")
  case None
  assume "step_no_of_attempts stp = None"
  then show ?thesis
    using None
    by (cases "validate_text (rs_self st) (\<lambda>i. resolves wd (rs_ticks st)) (step_text stp)
           (step_stop_texts stp) (rs_max_wait_time st) 1 2" rule: prod.exhaust)
       (auto simp: exec_step_def Let_def split: sum.splits option.splits)
next
  case (Some v)
  assume "step_no_of_attempts stp = None"
  then show ?thesis
    using Some
    by (cases "validate_text (rs_self st) (\<lambda>i. resolves wd (rs_ticks st)) (step_text stp)
           (step_stop_texts stp) v 1 2" rule: prod.exhaust)
       (auto simp: exec_step_def Let_def split: sum.splits option.splits)
qed

lemma exec_step_counter:
  "exec_step wd swt stp st = Inr st' \<Longrightarrow>
   rs_no_of_attempts st' =
     (case step_no_of_attempts stp of None \<Rightarrow> rs_no_of_attempts st | Some v \<Rightarrow> v)"
  by (cases "step_no_of_attempts stp"; cases "step_max_wait_time stp")
     (auto simp: exec_step_def Let_def split: prod.splits sum.splits option.splits if_splits)

lemma run_steps_counter:
  "run_steps wd swt steps st = Inr st1 \<Longrightarrow>
   rs_no_of_attempts st1 = last (rs_no_of_attempts st # List.map_filter step_no_of_attempts steps)"
proof (induction steps arbitrary: st)
  case Nil
  then show ?case by (simp add: List.map_filter_simps)
next
  case (Cons stp steps)
  then obtain st' where e: "exec_step wd swt stp st = Inr st'"
    and r: "run_steps wd swt steps st' = Inr st1"
    by (auto split: sum.splits)
  have "rs_no_of_attempts st1 = last (rs_no_of_attempts st' # List.map_filter step_no_of_attempts steps)"
    using Cons.IH [OF r] .
  then show ?case
    using exec_step_counter [OF e] by (cases "step_no_of_attempts stp") (simp_all add: List.map_filter_simps)
qed

lemma run_steps_attempts_override:
  "\<exists>x\<in>set steps. step_no_of_attempts x \<noteq> None \<Longrightarrow>
   run_steps wd swt steps (st\<lparr>rs_no_of_attempts := n\<rparr>) = run_steps wd swt steps st"
proof (induction steps arbitrary: st)
  case Nil
  then show ?case by simp
next
  case (Cons stp steps)
  show ?case
  proof (cases "step_no_of_attempts stp")
    case (Some v)
    then show ?thesis by (simp add: exec_step_attempts_override)
  next
    case None
    then have rest: "\<exists>x\<in>set steps. step_no_of_attempts x \<noteq> None"
      using Cons.prems by auto
    show ?thesis
      using Cons.IH [OF rest]
      by (cases "exec_step wd swt stp st") (simp_all add: exec_step_attempts_keep [OF None])
  qed
qed

lemma outer_loop_attempts_override:
  assumes "\<exists>x\<in>set steps. step_no_of_attempts x \<noteq> None" and "0 < n" and "0 < m"
  shows "outer_loop wd swt steps (st\<lparr>rs_no_of_attempts := n\<rparr>) =
         outer_loop wd swt steps (st\<lparr>rs_no_of_attempts := m\<rparr>)"
proof -
  have same: "run_steps wd swt steps (st\<lparr>rs_no_of_attempts := n\<rparr>) =
        run_steps wd swt steps (st\<lparr>rs_no_of_attempts := m\<rparr>)"
    using assms(1) by (simp add: run_steps_attempts_override)
  have unfold: "outer_loop wd swt steps (st\<lparr>rs_no_of_attempts := j\<rparr>) =
      (case run_steps wd swt steps (st\<lparr>rs_no_of_attempts := j\<rparr>) of
         Inl x \<Rightarrow> Some (Inl x)
       | Inr st1 \<Rightarrow>
           (let st2 = st1\<lparr>rs_no_of_attempts := rs_no_of_attempts st1 - 1\<rparr> in
            if rs_break_flag st2 then Some (Inr st2)
            else (case post_pass_check steps (rs_data st2) of
                    Inl x \<Rightarrow> Some (Inl x)
                  | Inr hit \<Rightarrow>
                      if hit then Some (Inr (st2\<lparr>rs_break_flag := True\<rparr>))
                      else outer_loop wd swt steps st2)))"
    if "0 < j" for j
    using that by (subst outer_loop.simps) simp
  show ?thesis
    unfolding unfold [OF assms(2)] unfold [OF assms(3)] same ..
qed

lemma outer_loop_break:
  assumes "0 < rs_no_of_attempts st" and "run_steps wd swt steps st = Inr st1"
    and "rs_break_flag st1"
  shows "outer_loop wd swt steps st =
     Some (Inr (st1\<lparr>rs_no_of_attempts := rs_no_of_attempts st1 - 1\<rparr>))"
  using assms by (subst outer_loop.simps) (simp add: Let_def)

lemma poll_status_fields:
  "step_action poll_status = ''validate_text''" "step_text poll_status = ''done''"
  "step_stop_texts poll_status = None" "step_max_wait_time poll_status = None"
  "step_no_of_attempts poll_status = Some 2"
  by (simp_all add: poll_status_def)

lemma done_on_second_resolves:
  "resolves done_on_second 0 = Located (steady ''wait'')"
  "resolves done_on_second (Suc 0) = Located (steady ''done'')"
  by (simp_all add: done_on_second_def)

lemma poll_status_first_pass:
  "run_steps done_on_second 0 [poll_status] (start_state 1) =
     Inr \<lparr>rs_max_wait_time = 5, rs_no_of_attempts = 2, rs_data = Some ''wait'',
          rs_break_flag = False, rs_self = idle\<lparr>clock := 2\<rparr>, rs_ticks = Suc 0\<rparr>"
proof -
  have v: "validate_text idle (\<lambda>i. Located (steady ''wait'')) ''done'' None 5 1 2 =
      (Inr \<lparr>data = Some ''wait'', status = False\<rparr>, idle\<lparr>clock := clock idle + 2\<rparr>)"
    by (simp add: validate_text_single)
  have "exec_step done_on_second 0 poll_status (start_state 1) =
     Inr ((start_state 1)\<lparr>rs_max_wait_time := 5, rs_no_of_attempts := 2,
            rs_data := data \<lparr>data = Some ''wait'', status = False\<rparr>,
            rs_break_flag := False,
            rs_self := (idle\<lparr>clock := clock idle + 2\<rparr>)\<lparr>clock := clock (idle\<lparr>clock := clock idle + 2\<rparr>) + 0\<rparr>,
            rs_ticks := rs_ticks (start_state 1) + 1\<rparr>)"
    using v
    by (subst exec_step_validate [where D = "\<lparr>data = Some ''wait'', status = False\<rparr>"
          and ?s1.0 = "idle\<lparr>clock := clock idle + 2\<rparr>"])
       (simp_all add: poll_status_fields done_on_second_resolves start_state_def sleep_accepts)
  then show ?thesis
    by (simp add: start_state_def idle_def)
qed

lemma poll_status_second_pass:
  "run_steps done_on_second 0 [poll_status]
       \<lparr>rs_max_wait_time = 5, rs_no_of_attempts = 1, rs_data = Some ''wait'',
          rs_break_flag = False, rs_self = idle\<lparr>clock := 2\<rparr>, rs_ticks = Suc 0\<rparr> =
     Inr \<lparr>rs_max_wait_time = 5, rs_no_of_attempts = 2, rs_data = Some ''done'',
          rs_break_flag = True, rs_self = idle\<lparr>clock := 2\<rparr>, rs_ticks = 2\<rparr>"
proof -
  let ?st = "\<lparr>rs_max_wait_time = 5, rs_no_of_attempts = 1, rs_data = Some ''wait'',
          rs_break_flag = False, rs_self = idle\<lparr>clock := 2\<rparr>, rs_ticks = Suc 0\<rparr>"
  have v: "validate_text (idle\<lparr>clock := 2\<rparr>) (\<lambda>i. Located (steady ''done'')) ''done'' None 5 1 2 =
      (Inr \<lparr>data = Some ''done'', status = True\<rparr>, idle\<lparr>clock := 2\<rparr>)"
    by (simp add: validate_text_single)
  have "exec_step done_on_second 0 poll_status ?st =
     Inr (?st\<lparr>rs_max_wait_time := 5, rs_no_of_attempts := 2,
            rs_data := data \<lparr>data = Some ''done'', status = True\<rparr>,
            rs_break_flag := True,
            rs_self := (idle\<lparr>clock := 2\<rparr>)\<lparr>clock := clock (idle\<lparr>clock := 2\<rparr>) + 0\<rparr>,
            rs_ticks := rs_ticks ?st + 1\<rparr>)"
    using v
    by (subst exec_step_validate [where D = "\<lparr>data = Some ''done'', status = True\<rparr>"
          and ?s1.0 = "idle\<lparr>clock := 2\<rparr>"])
       (simp_all add: poll_status_fields done_on_second_resolves sleep_accepts)
  then show ?thesis
    by (simp add: idle_def)
qed

text \<open>
  A caller who allows one attempt gets a second pass from a step's override of 2: the run
  below matches on its second pass.
\<close>

lemma override_extends_budget:
  "repeat_steps_until_success idle done_on_second [poll_status] 5 1 0 True True =
     Some (Inr (Captured \<lparr>data = Some ''done'', status = True\<rparr>))"
proof -
  let ?st1 = "\<lparr>rs_max_wait_time = 5, rs_no_of_attempts = 2, rs_data = Some ''wait'',
          rs_break_flag = False, rs_self = idle\<lparr>clock := 2\<rparr>, rs_ticks = Suc 0\<rparr>"
  let ?st2 = "\<lparr>rs_max_wait_time = 5, rs_no_of_attempts = 2, rs_data = Some ''done'',
          rs_break_flag = True, rs_self = idle\<lparr>clock := 2\<rparr>, rs_ticks = 2\<rparr>"
  have a: "0 < rs_no_of_attempts (start_state 1)" by (simp add: start_state_def)
  have nb: "\<not> rs_break_flag ?st1" by simp
  have p: "post_pass_check [poll_status] (rs_data ?st1) = Inr False"
    by (simp add: post_pass_check_def poll_status_fields)
  have first: "outer_loop done_on_second 0 [poll_status] (start_state 1) =
      outer_loop done_on_second 0 [poll_status] (?st1\<lparr>rs_no_of_attempts := rs_no_of_attempts ?st1 - 1\<rparr>)"
    unfolding outer_loop_after_pass [OF a poll_status_first_pass nb] p by simp
  have second: "outer_loop done_on_second 0 [poll_status]
        \<lparr>rs_max_wait_time = 5, rs_no_of_attempts = 1, rs_data = Some ''wait'',
          rs_break_flag = False, rs_self = idle\<lparr>clock := 2\<rparr>, rs_ticks = Suc 0\<rparr> =
      Some (Inr (?st2\<lparr>rs_no_of_attempts := rs_no_of_attempts ?st2 - 1\<rparr>))"
    by (rule outer_loop_break [OF _ poll_status_second_pass]) simp_all
  have "outer_loop done_on_second 0 [poll_status] (start_state 1) =
      Some (Inr (?st2\<lparr>rs_no_of_attempts := rs_no_of_attempts ?st2 - 1\<rparr>))"
    unfolding first using second by simp
  then show ?thesis
    by (simp add: repeat_steps_until_success_def start_state_def)
qed

text \<open>
  With the same override and a text that never matches, every pass sets the counter back
  to 2: the attempts are never used up and the call does not return.
\<close>

lemma poll_status_pass_never_done:
  assumes "0 < rs_max_wait_time st" and "\<not> rs_break_flag st"
  shows "\<exists>st1. run_steps never_done 0 [poll_status] st = Inr st1 \<and>
           rs_no_of_attempts st1 = 2 \<and> rs_max_wait_time st1 = rs_max_wait_time st \<and>
           \<not> rs_break_flag st1 \<and> rs_data st1 = Some ''wait''"
proof -
  have v: "validate_text (rs_self st) (\<lambda>i. resolves never_done (rs_ticks st)) (step_text poll_status)
           (step_stop_texts poll_status)
           (case step_max_wait_time poll_status of None \<Rightarrow> rs_max_wait_time st | Some v \<Rightarrow> v) 1 2 =
         (Inr \<lparr>data = Some ''wait'', status = False\<rparr>, (rs_self st)\<lparr>clock := clock (rs_self st) + 2\<rparr>)"
    using assms(1) by (simp add: poll_status_fields validate_text_single never_done_def)
  show ?thesis
    using assms(2)
    by (simp add: exec_step_validate [OF _ sleep_accepts(1) v] poll_status_fields)
qed

lemma outer_loop_never_done:
  assumes "outer_loop wd swt steps st = Some y"
  shows "\<not> (wd = never_done \<and> swt = 0 \<and> steps = [poll_status] \<and>
            0 < rs_no_of_attempts st \<and> 0 < rs_max_wait_time st \<and> \<not> rs_break_flag st)"
proof (rule outer_loop.raw_induct [where P = "\<lambda>wd swt steps st y.
          \<not> (wd = never_done \<and> swt = 0 \<and> steps = [poll_status] \<and>
             0 < rs_no_of_attempts st \<and> 0 < rs_max_wait_time st \<and> \<not> rs_break_flag st)",
        OF _ assms])
  fix f :: "world \<Rightarrow> real \<Rightarrow> step list \<Rightarrow> run_state \<Rightarrow> (exn + run_state) option"
    and wd swt steps st y
  assume ih: "\<And>wd swt steps st y. f wd swt steps st = Some y \<Longrightarrow>
          \<not> (wd = never_done \<and> swt = 0 \<and> steps = [poll_status] \<and>
             0 < rs_no_of_attempts st \<and> 0 < rs_max_wait_time st \<and> \<not> rs_break_flag st)"
    and body: "(if 0 < rs_no_of_attempts st
      then case run_steps wd swt steps st of Inl x \<Rightarrow> Some (Inl x)
           | Inr st1 \<Rightarrow>
               let st2 = st1\<lparr>rs_no_of_attempts := rs_no_of_attempts st1 - 1\<rparr>
               in if rs_break_flag st2 then Some (Inr st2)
                  else case post_pass_check steps (rs_data st2) of
                       Inl x \<Rightarrow> Some (Inl x)
                       | Inr hit \<Rightarrow>
                           if hit
                           then Some (Inr (st2\<lparr>rs_break_flag := True\<rparr>))
                           else f wd swt steps st2
      else Some (Inr st)) = Some y"
  show "\<not> (wd = never_done \<and> swt = 0 \<and> steps = [poll_status] \<and>
            0 < rs_no_of_attempts st \<and> 0 < rs_max_wait_time st \<and> \<not> rs_break_flag st)"
  proof
    assume inv: "wd = never_done \<and> swt = 0 \<and> steps = [poll_status] \<and>
            0 < rs_no_of_attempts st \<and> 0 < rs_max_wait_time st \<and> \<not> rs_break_flag st"
    then obtain st1 where p: "run_steps never_done 0 [poll_status] st = Inr st1"
      and c: "rs_no_of_attempts st1 = 2" "rs_max_wait_time st1 = rs_max_wait_time st"
        "\<not> rs_break_flag st1" "rs_data st1 = Some ''wait''"
      using poll_status_pass_never_done [of st] by blast
    have q: "post_pass_check [poll_status] (Some ''wait'') = Inr False"
      by (simp add: post_pass_check_def poll_status_fields)
    have "f never_done 0 [poll_status] (st1\<lparr>rs_no_of_attempts := rs_no_of_attempts st1 - 1\<rparr>) = Some y"
      using body inv p c q by (simp add: Let_def)
    from ih [OF this] show False
      using c inv by simp
  qed
qed

lemma override_never_returns:
  "repeat_steps_until_success idle never_done [poll_status] 5 1 0 raise_arg return_data = None"
proof -
  let ?init = "\<lparr>rs_max_wait_time = 5, rs_no_of_attempts = 1, rs_data = None,
      rs_break_flag = False, rs_self = idle, rs_ticks = 0\<rparr>"
  have "outer_loop never_done 0 [poll_status] ?init = None"
  proof (cases "outer_loop never_done 0 [poll_status] ?init")
    case (Some y)
    from outer_loop_never_done [OF this] have False
      by simp
    then show ?thesis ..
  qed simp
  then show ?thesis
    by (simp add: repeat_steps_until_success_def)
qed

text \<open>
  The test after a pass is containment of the captured text in a stop text as a
  substring, and it needs a captured text.
\<close>

lemma post_pass_check_substring:
  "post_pass_check [click_next] (Some ''err'') = Inr True"
  by (simp add: post_pass_check_def click_next_def startswith_def)

lemma post_pass_check_no_data:
  "post_pass_check [click_next] None = Inl TypeError"
  by (simp add: post_pass_check_def click_next_def)

text \<open>
  Claim C2. Take a pass over a non-empty step list that ran to its end without setting
  the success flag. If the text last captured is one of the stop texts of the final step,
  the outer loop ends right after this pass, whatever is left of the attempts. The test
  after the pass reads the stop texts of the final step only: it gives the same answer on
  the list that holds the final step alone, and with no stop texts on the final step the
  loop goes on to the next pass.
\<close>

theorem post_pass_stop_check:
  assumes "0 < rs_no_of_attempts st" and "run_steps wd swt steps st = Inr st1"
    and "\<not> rs_break_flag st1" and "steps \<noteq> []"
  shows "(\<forall>d l. rs_data st1 = Some d \<and> step_stop_texts (last steps) = Some l \<and> d \<in> set l \<longrightarrow>
            outer_loop wd swt steps st =
              Some (Inr (st1\<lparr>rs_no_of_attempts := rs_no_of_attempts st1 - 1, rs_break_flag := True\<rparr>))) \<and>
         post_pass_check steps (rs_data st1) = post_pass_check [last steps] (rs_data st1) \<and>
         (step_stop_texts (last steps) = None \<longrightarrow>
            outer_loop wd swt steps st =
              outer_loop wd swt steps (st1\<lparr>rs_no_of_attempts := rs_no_of_attempts st1 - 1\<rparr>))"
proof (intro conjI allI impI)
  fix d l
  assume "rs_data st1 = Some d \<and> step_stop_texts (last steps) = Some l \<and> d \<in> set l"
  then have "post_pass_check steps (rs_data st1) = Inr True"
    using assms(4) by (simp add: post_pass_check_def any_data_in_member)
  then show "outer_loop wd swt steps st =
      Some (Inr (st1\<lparr>rs_no_of_attempts := rs_no_of_attempts st1 - 1, rs_break_flag := True\<rparr>))"
    using outer_loop_after_pass [OF assms(1-3)] by simp
next
  show "post_pass_check steps (rs_data st1) = post_pass_check [last steps] (rs_data st1)"
    using assms(4) by (simp add: post_pass_check_def)
next
  assume "step_stop_texts (last steps) = None"
  then have "post_pass_check steps (rs_data st1) = Inr False"
    using assms(4) by (simp add: post_pass_check_def)
  then show "outer_loop wd swt steps st =
      outer_loop wd swt steps (st1\<lparr>rs_no_of_attempts := rs_no_of_attempts st1 - 1\<rparr>)"
    using outer_loop_after_pass [OF assms(1-3)] by simp
qed

theorem post_pass_stop_check_witness:
  "outer_loop shows_error 0 read_then_click (start_state 3) =
     Some (Inr \<lparr>rs_max_wait_time = 5, rs_no_of_attempts = 2, rs_data = Some ''error'',
          rs_break_flag = True, rs_self = idle\<lparr>clock := 2\<rparr>, rs_ticks = 2\<rparr>)"
proof -
  let ?st1 = "\<lparr>rs_max_wait_time = 5, rs_no_of_attempts = 3, rs_data = Some ''error'',
          rs_break_flag = False, rs_self = idle\<lparr>clock := 2\<rparr>, rs_ticks = 2\<rparr>"
  have a: "0 < rs_no_of_attempts (start_state 3)" by (simp add: start_state_def)
  have nb: "\<not> rs_break_flag ?st1" by simp
  have c: "read_then_click \<noteq> []" by (simp add: read_then_click_def)
  have m: "rs_data ?st1 = Some ''error'' \<and>
      step_stop_texts (last read_then_click) = Some [''error''] \<and> ''error'' \<in> set [''error'']"
    by (simp add: read_then_click_def click_next_def)
  from post_pass_stop_check [OF a read_then_click_pass nb c]
  have "\<forall>d l. rs_data ?st1 = Some d \<and> step_stop_texts (last read_then_click) = Some l \<and> d \<in> set l \<longrightarrow>
      outer_loop shows_error 0 read_then_click (start_state 3) =
        Some (Inr (?st1\<lparr>rs_no_of_attempts := rs_no_of_attempts ?st1 - 1, rs_break_flag := True\<rparr>))"
    by (rule conjunct1)
  with m have "outer_loop shows_error 0 read_then_click (start_state 3) =
        Some (Inr (?st1\<lparr>rs_no_of_attempts := rs_no_of_attempts ?st1 - 1, rs_break_flag := True\<rparr>))"
    by blast
  then show ?thesis by simp
qed

text \<open>
  The run that ends this way is reported as a success: the test after the pass sets the
  same flag a match would set.
\<close>

lemma stop_text_run_reports_success:
  "repeat_steps_until_success idle shows_error read_then_click 5 3 0 True True =
     Some (Inr (Captured \<lparr>data = Some ''error'', status = True\<rparr>))"
proof -
  let ?st1 = "\<lparr>rs_max_wait_time = 5, rs_no_of_attempts = 3, rs_data = Some ''error'',
          rs_break_flag = False, rs_self = idle\<lparr>clock := 2\<rparr>, rs_ticks = 2\<rparr>"
  have a: "0 < rs_no_of_attempts (start_state 3)" by (simp add: start_state_def)
  have nb: "\<not> rs_break_flag ?st1" by simp
  have l: "step_stop_texts (last read_then_click) = Some [''error'']"
    by (simp add: read_then_click_def click_next_def)
  have c: "read_then_click \<noteq> []" by (simp add: read_then_click_def)
  have "any_data_in (Some ''error'') [''error''] = Inr True"
    by (rule any_data_in_member) simp
  then have p: "post_pass_check read_then_click (rs_data ?st1) = Inr True"
    using c by (simp only: post_pass_check_def l run_state.simps option.case if_False)
  have "outer_loop shows_error 0 read_then_click (start_state 3) =
        Some (Inr (?st1\<lparr>rs_no_of_attempts := rs_no_of_attempts ?st1 - 1, rs_break_flag := True\<rparr>))"
    unfolding outer_loop_after_pass [OF a read_then_click_pass nb] p by simp
  then show ?thesis
    by (simp add: repeat_steps_until_success_def start_state_def)
qed

lemma outer_loop_exhausted:
  "\<not> 0 < rs_no_of_attempts st \<Longrightarrow> outer_loop wd swt steps st = Some (Inr st)"
  by (subst outer_loop.simps) simp

lemma overrides_present:
  "List.map_filter step_no_of_attempts steps \<noteq> [] \<longleftrightarrow>
   (\<exists>x\<in>set steps. step_no_of_attempts x \<noteq> None)"
  by (induction steps) (auto simp: List.map_filter_simps split: option.splits)

lemma budget_after_pass:
  assumes "List.map_filter step_no_of_attempts steps \<noteq> []" and "0 < rs_no_of_attempts st"
    and "run_steps wd swt steps st = Inr pass1" and "\<not> rs_break_flag pass1"
    and "post_pass_check steps (rs_data pass1) = Inr False"
  shows "outer_loop wd swt steps st =
      outer_loop wd swt steps
        (pass1\<lparr>rs_no_of_attempts := last (List.map_filter step_no_of_attempts steps) - 1\<rparr>)"
    and "last (List.map_filter step_no_of_attempts steps) \<le> 1 \<Longrightarrow>
      outer_loop wd swt steps st =
        Some (Inr (pass1\<lparr>rs_no_of_attempts := last (List.map_filter step_no_of_attempts steps) - 1\<rparr>))"
    and "1 < last (List.map_filter step_no_of_attempts steps) \<Longrightarrow>
      run_steps wd swt steps
        (pass1\<lparr>rs_no_of_attempts := last (List.map_filter step_no_of_attempts steps) - 1\<rparr>) =
        Inr pass2 \<Longrightarrow>
      rs_break_flag pass2 \<Longrightarrow>
      outer_loop wd swt steps st =
        Some (Inr (pass2\<lparr>rs_no_of_attempts := last (List.map_filter step_no_of_attempts steps) - 1\<rparr>))"
proof -
  let ?ovs = "List.map_filter step_no_of_attempts steps"
  have c: "rs_no_of_attempts pass1 = last ?ovs"
    using assms(1) run_steps_counter [OF assms(3)] by simp
  have "outer_loop wd swt steps st =
      outer_loop wd swt steps (pass1\<lparr>rs_no_of_attempts := rs_no_of_attempts pass1 - 1\<rparr>)"
    using assms(5) outer_loop_after_pass [OF assms(2,3,4)] by simp
  then show go_on: "outer_loop wd swt steps st =
      outer_loop wd swt steps (pass1\<lparr>rs_no_of_attempts := last ?ovs - 1\<rparr>)"
    by (simp add: c)
  show "outer_loop wd swt steps st = Some (Inr (pass1\<lparr>rs_no_of_attempts := last ?ovs - 1\<rparr>))"
    if "last ?ovs \<le> 1"
    unfolding go_on using that by (intro outer_loop_exhausted) simp
  show "outer_loop wd swt steps st = Some (Inr (pass2\<lparr>rs_no_of_attempts := last ?ovs - 1\<rparr>))"
    if b: "1 < last ?ovs"
      "run_steps wd swt steps (pass1\<lparr>rs_no_of_attempts := last ?ovs - 1\<rparr>) = Inr pass2"
      "rs_break_flag pass2"
  proof -
    have c2: "rs_no_of_attempts pass2 = last ?ovs"
      using assms(1) run_steps_counter [OF b(2)] by simp
    have "outer_loop wd swt steps (pass1\<lparr>rs_no_of_attempts := last ?ovs - 1\<rparr>) =
        Some (Inr (pass2\<lparr>rs_no_of_attempts := rs_no_of_attempts pass2 - 1\<rparr>))"
      using b by (intro outer_loop_break) simp_all
    then show ?thesis
      unfolding go_on by (simp add: c2)
  qed
qed

text \<open>
  Claim C6. A step's \<open>no_of_attempts\<close> override is written to the shared counter. After
  the step the counter holds the override, and after a pass it holds the last override of
  the list, so the steps that follow in the pass and the decrement after it work on the
  override. What is left of the outer passes is then set by the override and not by the
  caller: after a pass that neither matched nor met a stop text the loop goes on from the
  last override minus one, so it ends there when the override is at most 1 and runs a
  further pass (which can succeed) when the override is larger. For the call itself:
  whatever positive \<open>no_of_attempts\<close> the caller passes, after such a first pass an
  override of at most 1 makes the call fail at once, and a larger override lets a second
  pass that matches make it succeed. With an override anywhere in the list the loop does
  the same for every positive \<open>no_of_attempts\<close> of the caller, and so does the call
  that returns its failure instead of raising it (the exception's message still names
  the caller's value).
\<close>

theorem attempts_override_governs:
  fixes steps :: "step list"
  defines "ovs \<equiv> List.map_filter step_no_of_attempts steps"
  defines "start \<equiv> \<lambda>s mw n. \<lparr>rs_max_wait_time = mw, rs_no_of_attempts = n, rs_data = None,
      rs_break_flag = False, rs_self = s, rs_ticks = 0\<rparr>"
  shows
  "(step_no_of_attempts stp = Some v \<and> exec_step wd swt stp st = Inr st' \<longrightarrow>
      rs_no_of_attempts st' = v) \<and>
   (ovs \<noteq> [] \<and> run_steps wd swt steps st = Inr pass1 \<longrightarrow> rs_no_of_attempts pass1 = last ovs) \<and>
   (ovs \<noteq> [] \<and> 0 < rs_no_of_attempts st \<and> run_steps wd swt steps st = Inr pass1 \<and>
    \<not> rs_break_flag pass1 \<and> post_pass_check steps (rs_data pass1) = Inr False \<longrightarrow>
      outer_loop wd swt steps st =
        outer_loop wd swt steps (pass1\<lparr>rs_no_of_attempts := last ovs - 1\<rparr>) \<and>
      (last ovs \<le> 1 \<longrightarrow>
         outer_loop wd swt steps st = Some (Inr (pass1\<lparr>rs_no_of_attempts := last ovs - 1\<rparr>))) \<and>
      (1 < last ovs \<and>
       run_steps wd swt steps (pass1\<lparr>rs_no_of_attempts := last ovs - 1\<rparr>) = Inr pass2 \<and>
       rs_break_flag pass2 \<longrightarrow>
         outer_loop wd swt steps st = Some (Inr (pass2\<lparr>rs_no_of_attempts := last ovs - 1\<rparr>)))) \<and>
   (ovs \<noteq> [] \<and> 0 < n \<and> run_steps wd swt steps (start s mw n) = Inr first \<and>
    \<not> rs_break_flag first \<and> post_pass_check steps (rs_data first) = Inr False \<longrightarrow>
      (last ovs \<le> 1 \<longrightarrow>
         repeat_steps_until_success s wd steps mw n swt ra rd =
           (if ra then Some (Inl (StepsFailed n))
            else if rd then Some (Inr (Captured \<lparr>data = rs_data first, status = False\<rparr>))
            else Some (Inr (Flag False)))) \<and>
      (1 < last ovs \<and>
       run_steps wd swt steps (first\<lparr>rs_no_of_attempts := last ovs - 1\<rparr>) = Inr second \<and>
       rs_break_flag second \<longrightarrow>
         repeat_steps_until_success s wd steps mw n swt ra rd =
           (if rd then Some (Inr (Captured \<lparr>data = rs_data second, status = True\<rparr>))
            else Some (Inr (Flag True))))) \<and>
   (ovs \<noteq> [] \<and> 0 < n \<and> 0 < m \<longrightarrow>
      outer_loop wd swt steps (sa\<lparr>rs_no_of_attempts := n\<rparr>) =
        outer_loop wd swt steps (sa\<lparr>rs_no_of_attempts := m\<rparr>) \<and>
      repeat_steps_until_success s wd steps mw n swt False rd =
        repeat_steps_until_success s wd steps mw m swt False rd)"
proof (intro conjI impI)
  assume "step_no_of_attempts stp = Some v \<and> exec_step wd swt stp st = Inr st'"
  then show "rs_no_of_attempts st' = v"
    using exec_step_counter [of wd swt stp st st'] by simp
next
  assume "ovs \<noteq> [] \<and> run_steps wd swt steps st = Inr pass1"
  then show "rs_no_of_attempts pass1 = last ovs"
    using run_steps_counter [of wd swt steps st pass1] by (simp add: ovs_def)
next
  assume a: "ovs \<noteq> [] \<and> 0 < rs_no_of_attempts st \<and> run_steps wd swt steps st = Inr pass1 \<and>
    \<not> rs_break_flag pass1 \<and> post_pass_check steps (rs_data pass1) = Inr False"
  then have h: "List.map_filter step_no_of_attempts steps \<noteq> []" "0 < rs_no_of_attempts st"
    "run_steps wd swt steps st = Inr pass1" "\<not> rs_break_flag pass1"
    "post_pass_check steps (rs_data pass1) = Inr False"
    by (simp_all add: ovs_def)
  show "outer_loop wd swt steps st =
      outer_loop wd swt steps (pass1\<lparr>rs_no_of_attempts := last ovs - 1\<rparr>)"
    unfolding ovs_def by (rule budget_after_pass(1) [OF h])
  {
    assume "last ovs \<le> 1"
    then show "outer_loop wd swt steps st = Some (Inr (pass1\<lparr>rs_no_of_attempts := last ovs - 1\<rparr>))"
      unfolding ovs_def by (rule budget_after_pass(2) [OF h])
  }
  {
    assume "1 < last ovs \<and>
       run_steps wd swt steps (pass1\<lparr>rs_no_of_attempts := last ovs - 1\<rparr>) = Inr pass2 \<and>
       rs_break_flag pass2"
    then show "outer_loop wd swt steps st = Some (Inr (pass2\<lparr>rs_no_of_attempts := last ovs - 1\<rparr>))"
      unfolding ovs_def by (intro budget_after_pass(3) [OF h]) simp_all
  }
next
  assume a: "ovs \<noteq> [] \<and> 0 < n \<and> run_steps wd swt steps (start s mw n) = Inr first \<and>
    \<not> rs_break_flag first \<and> post_pass_check steps (rs_data first) = Inr False"
  then have h: "List.map_filter step_no_of_attempts steps \<noteq> []"
    "0 < rs_no_of_attempts (start s mw n)"
    "run_steps wd swt steps (start s mw n) = Inr first" "\<not> rs_break_flag first"
    "post_pass_check steps (rs_data first) = Inr False"
    by (simp_all add: ovs_def start_def)
  have call: "repeat_steps_until_success s wd steps mw n swt ra rd =
     (case outer_loop wd swt steps (start s mw n) of
        None \<Rightarrow> None
      | Some (Inl x) \<Rightarrow> Some (Inl x)
      | Some (Inr st) \<Rightarrow>
          if \<not> rs_break_flag st then
            (if ra then Some (Inl (StepsFailed n))
             else if rd then Some (Inr (Captured \<lparr>data = rs_data st, status = False\<rparr>))
             else Some (Inr (Flag False)))
          else if rd then Some (Inr (Captured \<lparr>data = rs_data st, status = True\<rparr>))
          else Some (Inr (Flag True)))"
    by (simp add: repeat_steps_until_success_def start_def)
  {
    assume "last ovs \<le> 1"
    then have "outer_loop wd swt steps (start s mw n) =
        Some (Inr (first\<lparr>rs_no_of_attempts := last ovs - 1\<rparr>))"
      unfolding ovs_def by (rule budget_after_pass(2) [OF h])
    then show "repeat_steps_until_success s wd steps mw n swt ra rd =
           (if ra then Some (Inl (StepsFailed n))
            else if rd then Some (Inr (Captured \<lparr>data = rs_data first, status = False\<rparr>))
            else Some (Inr (Flag False)))"
      unfolding call using h(4) by simp
  }
  {
    assume b: "1 < last ovs \<and>
       run_steps wd swt steps (first\<lparr>rs_no_of_attempts := last ovs - 1\<rparr>) = Inr second \<and>
       rs_break_flag second"
    then have "outer_loop wd swt steps (start s mw n) =
        Some (Inr (second\<lparr>rs_no_of_attempts := last ovs - 1\<rparr>))"
      unfolding ovs_def by (intro budget_after_pass(3) [OF h]) simp_all
    then show "repeat_steps_until_success s wd steps mw n swt ra rd =
           (if rd then Some (Inr (Captured \<lparr>data = rs_data second, status = True\<rparr>))
            else Some (Inr (Flag True)))"
      unfolding call using b by simp
  }
next
  assume a: "ovs \<noteq> [] \<and> 0 < n \<and> 0 < m"
  then have ex: "\<exists>x\<in>set steps. step_no_of_attempts x \<noteq> None"
    by (simp add: ovs_def overrides_present)
  show "outer_loop wd swt steps (sa\<lparr>rs_no_of_attempts := n\<rparr>) =
        outer_loop wd swt steps (sa\<lparr>rs_no_of_attempts := m\<rparr>)"
    using ex a by (intro outer_loop_attempts_override) auto
  let ?init = "\<lparr>rs_max_wait_time = mw, rs_no_of_attempts = 0, rs_data = None,
      rs_break_flag = False, rs_self = s, rs_ticks = 0\<rparr>"
  have "outer_loop wd swt steps (?init\<lparr>rs_no_of_attempts := n\<rparr>) =
        outer_loop wd swt steps (?init\<lparr>rs_no_of_attempts := m\<rparr>)"
    using ex a by (intro outer_loop_attempts_override) auto
  then show "repeat_steps_until_success s wd steps mw n swt False rd =
      repeat_steps_until_success s wd steps mw m swt False rd"
    by (simp add: repeat_steps_until_success_def split: option.splits sum.splits)
qed

theorem attempts_override_governs_witness:
  "outer_loop done_on_second 0 [poll_status] (start_state 1) =
     outer_loop done_on_second 0 [poll_status]
       \<lparr>rs_max_wait_time = 5, rs_no_of_attempts = 1, rs_data = Some ''wait'',
        rs_break_flag = False, rs_self = idle\<lparr>clock := 2\<rparr>, rs_ticks = Suc 0\<rparr> \<and>
   outer_loop done_on_second 0 [poll_status] (start_state 1) =
     Some (Inr \<lparr>rs_max_wait_time = 5, rs_no_of_attempts = 1, rs_data = Some ''done'',
        rs_break_flag = True, rs_self = idle\<lparr>clock := 2\<rparr>, rs_ticks = 2\<rparr>) \<and>
   repeat_steps_until_success idle done_on_second [poll_status] 5 1 0 True True =
     Some (Inr (Captured \<lparr>data = Some ''done'', status = True\<rparr>)) \<and>
   outer_loop done_on_second 0 [poll_status] (start_state 1) =
     outer_loop done_on_second 0 [poll_status] (start_state 7) \<and>
   repeat_steps_until_success idle done_on_second [poll_status] 5 1 0 False True =
     repeat_steps_until_success idle done_on_second [poll_status] 5 7 0 False True"
proof -
  let ?p1 = "\<lparr>rs_max_wait_time = 5, rs_no_of_attempts = 2, rs_data = Some ''wait'',
        rs_break_flag = False, rs_self = idle\<lparr>clock := 2\<rparr>, rs_ticks = Suc 0\<rparr>"
  let ?q1 = "\<lparr>rs_max_wait_time = 5, rs_no_of_attempts = 1, rs_data = Some ''wait'',
        rs_break_flag = False, rs_self = idle\<lparr>clock := 2\<rparr>, rs_ticks = Suc 0\<rparr>"
  let ?p2 = "\<lparr>rs_max_wait_time = 5, rs_no_of_attempts = 2, rs_data = Some ''done'',
        rs_break_flag = True, rs_self = idle\<lparr>clock := 2\<rparr>, rs_ticks = 2\<rparr>"
  have ovs: "List.map_filter step_no_of_attempts [poll_status] = [2]"
    by (simp add: List.map_filter_simps poll_status_fields)
  have q1: "?p1\<lparr>rs_no_of_attempts := last [2] - 1\<rparr> = ?q1"
    by simp
  have q2: "?p2\<lparr>rs_no_of_attempts := last [2] - 1\<rparr> =
      \<lparr>rs_max_wait_time = 5, rs_no_of_attempts = 1, rs_data = Some ''done'',
        rs_break_flag = True, rs_self = idle\<lparr>clock := 2\<rparr>, rs_ticks = 2\<rparr>"
    by simp
  have starts: "(start_state 0)\<lparr>rs_no_of_attempts := 1\<rparr> = start_state 1"
    "(start_state 0)\<lparr>rs_no_of_attempts := 7\<rparr> = start_state 7"
    "\<lparr>rs_max_wait_time = 5, rs_no_of_attempts = 1, rs_data = None,
      rs_break_flag = False, rs_self = idle, rs_ticks = 0\<rparr> = start_state 1"
    by (simp_all add: start_state_def)
  have data2: "rs_data ?p2 = Some ''done''"
    by simp
  note T = attempts_override_governs [where steps = "[poll_status]" and wd = done_on_second
      and swt = 0 and st = "start_state 1" and ?pass1.0 = ?p1 and ?pass2.0 = ?p2
      and first = ?p1 and second = ?p2 and ra = True
      and n = 1 and m = 7 and sa = "start_state 0" and s = idle and mw = 5 and rd = True,
      unfolded ovs q1 q2 starts data2 if_True]
  have after_first: "[2::int] \<noteq> [] \<and> 0 < rs_no_of_attempts (start_state 1) \<and>
      run_steps done_on_second 0 [poll_status] (start_state 1) = Inr ?p1 \<and>
      \<not> rs_break_flag ?p1 \<and> post_pass_check [poll_status] (rs_data ?p1) = Inr False"
  proof (intro conjI)
    show "run_steps done_on_second 0 [poll_status] (start_state 1) = Inr ?p1"
      by (rule poll_status_first_pass)
    show "post_pass_check [poll_status] (rs_data ?p1) = Inr False"
      by (simp add: post_pass_check_def poll_status_fields)
  qed (simp_all add: start_state_def)
  have call_first: "[2::int] \<noteq> [] \<and> (0::int) < 1 \<and>
      run_steps done_on_second 0 [poll_status] (start_state 1) = Inr ?p1 \<and>
      \<not> rs_break_flag ?p1 \<and> post_pass_check [poll_status] (rs_data ?p1) = Inr False"
  proof (intro conjI)
    show "run_steps done_on_second 0 [poll_status] (start_state 1) = Inr ?p1"
      by (rule poll_status_first_pass)
    show "post_pass_check [poll_status] (rs_data ?p1) = Inr False"
      by (simp add: post_pass_check_def poll_status_fields)
  qed simp_all
  have after_second: "1 < last [2::int] \<and>
      run_steps done_on_second 0 [poll_status] ?q1 = Inr ?p2 \<and> rs_break_flag ?p2"
  proof (intro conjI)
    show "run_steps done_on_second 0 [poll_status] ?q1 = Inr ?p2"
      by (rule poll_status_second_pass)
  qed simp_all
  note third = T [THEN conjunct2, THEN conjunct2, THEN conjunct1, THEN mp, OF after_first]
  note fourth = T [THEN conjunct2, THEN conjunct2, THEN conjunct2, THEN conjunct1, THEN mp,
      OF call_first]
  note fifth = T [THEN conjunct2, THEN conjunct2, THEN conjunct2, THEN conjunct2, THEN mp]
  have pos: "[2::int] \<noteq> [] \<and> (0::int) < 1 \<and> (0::int) < 7"
    by simp
  show ?thesis
  proof (intro conjI)
    show "outer_loop done_on_second 0 [poll_status] (start_state 1) =
        outer_loop done_on_second 0 [poll_status] ?q1"
      by (rule third [THEN conjunct1])
    show "outer_loop done_on_second 0 [poll_status] (start_state 1) =
        Some (Inr \<lparr>rs_max_wait_time = 5, rs_no_of_attempts = 1, rs_data = Some ''done'',
          rs_break_flag = True, rs_self = idle\<lparr>clock := 2\<rparr>, rs_ticks = 2\<rparr>)"
      by (rule third [THEN conjunct2, THEN conjunct2, THEN mp, OF after_second])
    show "repeat_steps_until_success idle done_on_second [poll_status] 5 1 0 True True =
        Some (Inr (Captured \<lparr>data = Some ''done'', status = True\<rparr>))"
      by (rule fourth [THEN conjunct2, THEN mp, OF after_second])
    show "outer_loop done_on_second 0 [poll_status] (start_state 1) =
        outer_loop done_on_second 0 [poll_status] (start_state 7)"
      by (rule fifth [OF pos, THEN conjunct1])
    show "repeat_steps_until_success idle done_on_second [poll_status] 5 1 0 False True =
        repeat_steps_until_success idle done_on_second [poll_status] 5 7 0 False True"
      by (rule fifth [OF pos, THEN conjunct2])
  qed
qed

end
